theory Spec2Isabelle
  imports Main
begin

section \<open>Data model (src/ts/main.ts, lines 16--35 and 522--525)\<close>

text \<open>
  The solver works on a 10 x 10 board: the 8 x 8 puzzle inside a one-tile border.
  JavaScript numbers that the program only ever uses as small integers (coordinates,
  counters, hash ids) are modelled as \<open>int\<close>; loop indices that start at 0 and count
  upwards are \<open>nat\<close>.
\<close>

datatype TileType = EMPTY_SPACE | TREASURE | MONSTER | WALL

datatype Coordinate = Coord (cx: int) (cy: int)

type_synonym DiagramRow = "TileType list"
type_synonym Diagram = "DiagramRow list"
type_synonym RawDiagram = "TileType list list"
type_synonym Projection = "int list"

definition RAW_SIDE_LENGTH :: nat where
  "RAW_SIDE_LENGTH = 8"

definition SIDE_LENGTH :: int where
  "SIDE_LENGTH = 10"

text \<open>
  What an indexed read \<open>diagram[x][y]\<close> evaluates to. A column index outside the row
  gives JavaScript's \<open>undefined\<close>, which is different from every tile; a row index
  outside the board makes \<open>diagram[x]\<close> undefined and the second index raises a
  TypeError. The model returns \<open>None\<close> for the TypeError, and every function that
  reads the board returns an option: \<open>None\<close> means that the call does not return a
  value.
\<close>

datatype cell = Undefined | Tile TileType

definition inIndex :: "int \<Rightarrow> 'a list \<Rightarrow> bool" where
  \<comment> \<open>the JavaScript test \<open>i in array\<close> for a dense array\<close>
  "inIndex i xs = (0 \<le> i \<and> i < int (length xs))"

definition readTile :: "Diagram \<Rightarrow> int \<Rightarrow> int \<Rightarrow> cell option" where
  "readTile diagram x y =
     (if inIndex x diagram
      then (if inIndex y (diagram ! nat x)
            then Some (Tile (diagram ! nat x ! nat y))
            else Some Undefined)
      else None)"

definition readCoord :: "Diagram \<Rightarrow> Coordinate \<Rightarrow> cell option" where
  "readCoord diagram c = readTile diagram (cx c) (cy c)"

definition readTiles :: "Diagram \<Rightarrow> Coordinate list \<Rightarrow> cell list option" where
  \<comment> \<open>the tiles at a list of coordinates, read from left to right\<close>
  "readTiles diagram cs = those (map (readCoord diagram) cs)"

definition readIndex :: "'a list \<Rightarrow> int \<Rightarrow> 'a option" where
  \<comment> \<open>\<open>array[i]\<close>: \<open>None\<close> stands for JavaScript's \<open>undefined\<close>\<close>
  "readIndex xs i = (if inIndex i xs then Some (xs ! nat i) else None)"

section \<open>Projections (lines 212--249)\<close>

definition isTilePlacable ::
  "int \<Rightarrow> int \<Rightarrow> Projection \<Rightarrow> Projection \<Rightarrow> Projection \<Rightarrow> Projection \<Rightarrow> bool" where
  "isTilePlacable row_i column_i cur_row_projection cur_column_projection
       row_projection column_projection =
     (if \<not> (inIndex row_i cur_row_projection \<and> inIndex row_i row_projection \<and>
             inIndex column_i cur_column_projection \<and> inIndex column_i column_projection)
      then False
      else cur_row_projection ! nat row_i + 1 \<le> row_projection ! nat row_i \<and>
           cur_column_projection ! nat column_i + 1 \<le> column_projection ! nat column_i)"

definition getHashId :: "int \<Rightarrow> int \<Rightarrow> int" where
  "getHashId x y = x * 100 + y"

definition hashOf :: "Coordinate \<Rightarrow> int" where
  "hashOf c = getHashId (cx c) (cy c)"

definition isSatisfiedProjections ::
  "Projection \<Rightarrow> Projection \<Rightarrow> Projection \<Rightarrow> Projection \<Rightarrow> bool" where
  "isSatisfiedProjections cur_row_projection cur_column_projection
       row_projection column_projection =
     (if \<not> (length cur_row_projection = length row_projection \<and>
             length cur_column_projection = length column_projection)
      then False
      else list_all (\<lambda>i. cur_row_projection ! i = row_projection ! i)
             [0..<length cur_row_projection] \<and>
           list_all (\<lambda>i. cur_column_projection ! i = column_projection ! i)
             [0..<length cur_column_projection])"

section \<open>Grid geometry (lines 251--307)\<close>

definition get4DirectionCoords :: "int \<Rightarrow> int \<Rightarrow> Coordinate list" where
  "get4DirectionCoords x y =
     [Coord x (y - 1), Coord (x + 1) y, Coord x (y + 1), Coord (x - 1) y]"

definition getTRoomLTCoords :: "int \<Rightarrow> int \<Rightarrow> Coordinate list" where
  "getTRoomLTCoords x y =
     [Coord (x - 2) (y - 2), Coord (x - 1) (y - 2), Coord x (y - 2),
      Coord (x - 2) (y - 1), Coord (x - 1) (y - 1), Coord x (y - 1),
      Coord (x - 2) y, Coord (x - 1) y, Coord x y]"

definition getTRoomTileCoords :: "int \<Rightarrow> int \<Rightarrow> Coordinate list" where
  "getTRoomTileCoords x y =
     [Coord x y, Coord (x + 1) y, Coord (x + 2) y,
      Coord x (y + 1), Coord (x + 1) (y + 1), Coord (x + 2) (y + 1),
      Coord x (y + 2), Coord (x + 1) (y + 2), Coord (x + 2) (y + 2)]"

definition getTRoomOuterTileCoords :: "int \<Rightarrow> int \<Rightarrow> Coordinate list" where
  "getTRoomOuterTileCoords x y =
     [Coord x (y - 1), Coord (x + 1) (y - 1), Coord (x + 2) (y - 1),
      Coord (x + 3) y, Coord (x + 3) (y + 1), Coord (x + 3) (y + 2),
      Coord x (y + 3), Coord (x + 1) (y + 3), Coord (x + 2) (y + 3),
      Coord (x - 1) y, Coord (x - 1) (y + 1), Coord (x - 1) (y + 2)]"

definition get4TilesSpaces :: "int \<Rightarrow> int \<Rightarrow> Coordinate list list" where
  "get4TilesSpaces x y =
     [[Coord (x - 1) (y - 1), Coord x (y - 1), Coord (x - 1) y],
      [Coord x (y - 1), Coord (x + 1) (y - 1), Coord (x + 1) y],
      [Coord (x + 1) y, Coord (x + 1) (y + 1), Coord x (y + 1)],
      [Coord x (y + 1), Coord (x - 1) (y + 1), Coord (x - 1) y]]"

fun isContainedByTRoom :: "int \<Rightarrow> int \<Rightarrow> Coordinate list \<Rightarrow> bool" where
  "isContainedByTRoom x y [] = False"
| "isContainedByTRoom x y (lt_coord # rest) =
     (if x \<ge> cx lt_coord \<and> x < cx lt_coord + 3 \<and> y \<ge> cy lt_coord \<and> y < cy lt_coord + 3
      then True
      else isContainedByTRoom x y rest)"

definition isTRoomLTCoordAvailable :: "int \<Rightarrow> int \<Rightarrow> bool" where
  "isTRoomLTCoordAvailable x y =
     (x \<ge> 1 \<and> x < SIDE_LENGTH - 2 \<and> y \<ge> 1 \<and> y < SIDE_LENGTH - 2)"

definition interiorCoords :: "Coordinate list" where
  \<comment> \<open>the scan \<open>for x = 1..8: for y = 1..8\<close> that several checks share\<close>
  "interiorCoords = concat (map (\<lambda>x. map (Coord x) [1..SIDE_LENGTH - 2]) [1..SIDE_LENGTH - 2])"

section \<open>Room and dead-end tests (lines 309--350)\<close>

definition isTRoomTilesAvailable :: "int \<Rightarrow> int \<Rightarrow> Diagram \<Rightarrow> bool option" where
  "isTRoomTilesAvailable x y diagram =
     map_option
       (\<lambda>tiles. count_list tiles (Tile EMPTY_SPACE) = 8 \<and> count_list tiles (Tile TREASURE) = 1)
       (readTiles diagram (getTRoomTileCoords x y))"

definition isTRoomWallsAvailable :: "int \<Rightarrow> int \<Rightarrow> Diagram \<Rightarrow> bool option" where
  "isTRoomWallsAvailable x y diagram =
     map_option (\<lambda>tiles. count_list tiles (Tile WALL) = 11)
       (readTiles diagram (getTRoomOuterTileCoords x y))"

definition isDeadEnds :: "int \<Rightarrow> int \<Rightarrow> Diagram \<Rightarrow> bool option" where
  "isDeadEnds x y diagram =
     map_option (\<lambda>tiles. count_list tiles (Tile WALL) = 3)
       (readTiles diagram (get4DirectionCoords x y))"

section \<open>Connectivity (lines 352--467)\<close>

text \<open>
  \<open>color_set\<close> is a dictionary from hash ids to the sign of the flood fill that reached
  them; it is an association list here, newest entry first. Both flood fills are
  loops over a queue whose end is not bounded by the loop itself, so they are partial
  functions into \<open>option\<close>: \<open>None\<close> is a fill that does not return (it raised, or it
  never stops).
\<close>

type_synonym ColorSet = "(int \<times> nat) list"

definition hasKey :: "int \<Rightarrow> ColorSet \<Rightarrow> bool" where
  "hasKey hash_id color_set = (map_of color_set hash_id \<noteq> None)"

fun pushEmptyNeighbours :: "Diagram \<Rightarrow> ColorSet \<Rightarrow> Coordinate list \<Rightarrow> Coordinate list option" where
  "pushEmptyNeighbours diagram color_set [] = Some []"
| "pushEmptyNeighbours diagram color_set (coord # rest) =
     (case readCoord diagram coord of
        None \<Rightarrow> None
      | Some t \<Rightarrow>
          (case pushEmptyNeighbours diagram color_set rest of
             None \<Rightarrow> None
           | Some pushed \<Rightarrow>
               Some (if t = Tile EMPTY_SPACE \<and> \<not> hasKey (hashOf coord) color_set
                     then coord # pushed else pushed)))"

partial_function (option) bfsEmpty ::
  "Diagram \<Rightarrow> nat \<Rightarrow> Coordinate list \<Rightarrow> ColorSet \<Rightarrow> ColorSet option" where
  "bfsEmpty diagram sign queue color_set =
     (case queue of
        [] \<Rightarrow> Some color_set
      | head # rest \<Rightarrow>
          (if hasKey (hashOf head) color_set
           then bfsEmpty diagram sign rest color_set
           else (case pushEmptyNeighbours diagram ((hashOf head, sign) # color_set)
                        (get4DirectionCoords (cx head) (cy head)) of
                   None \<Rightarrow> None
                 | Some pushed \<Rightarrow>
                     bfsEmpty diagram sign (rest @ pushed) ((hashOf head, sign) # color_set))))"

declare bfsEmpty.simps [code]

fun scanEmptySpaces :: "Diagram \<Rightarrow> Coordinate list \<Rightarrow> ColorSet \<Rightarrow> nat \<Rightarrow> bool option" where
  "scanEmptySpaces diagram [] color_set sign_count = Some True"
| "scanEmptySpaces diagram (c # rest) color_set sign_count =
     (case readCoord diagram c of
        None \<Rightarrow> None
      | Some t \<Rightarrow>
          (if t = Tile EMPTY_SPACE
           then (if hasKey (hashOf c) color_set
                 then (if sign_count \<le> 1
                       then scanEmptySpaces diagram rest color_set sign_count
                       else Some False)
                 else (if sign_count \<noteq> 0
                       then Some False
                       else (case bfsEmpty diagram (sign_count + 1) [c] color_set of
                               None \<Rightarrow> None
                             | Some color_set' \<Rightarrow>
                                 scanEmptySpaces diagram rest color_set' (sign_count + 1))))
           else scanEmptySpaces diagram rest color_set sign_count))"

definition checkEmptySpacesConnectivity :: "Diagram \<Rightarrow> bool option" where
  "checkEmptySpacesConnectivity diagram = scanEmptySpaces diagram interiorCoords [] 0"

fun pushOpenNeighbours :: "Diagram \<Rightarrow> ColorSet \<Rightarrow> Coordinate list \<Rightarrow> Coordinate list option" where
  "pushOpenNeighbours diagram color_set [] = Some []"
| "pushOpenNeighbours diagram color_set (coord # rest) =
     (case readCoord diagram coord of
        None \<Rightarrow> None
      | Some t \<Rightarrow>
          (case pushOpenNeighbours diagram color_set rest of
             None \<Rightarrow> None
           | Some pushed \<Rightarrow>
               Some (if t \<noteq> Tile WALL \<and> \<not> hasKey (hashOf coord) color_set
                     then coord # pushed else pushed)))"

partial_function (option) bfsOpen ::
  "Diagram \<Rightarrow> nat \<Rightarrow> Coordinate list \<Rightarrow> ColorSet \<Rightarrow> ColorSet option" where
  "bfsOpen diagram sign queue color_set =
     (case queue of
        [] \<Rightarrow> Some color_set
      | head # rest \<Rightarrow>
          (if hasKey (hashOf head) color_set
           then bfsOpen diagram sign rest color_set
           else (case pushOpenNeighbours diagram ((hashOf head, sign) # color_set)
                        (get4DirectionCoords (cx head) (cy head)) of
                   None \<Rightarrow> None
                 | Some pushed \<Rightarrow>
                     bfsOpen diagram sign (rest @ pushed) ((hashOf head, sign) # color_set))))"

declare bfsOpen.simps [code]

fun scanTreasuresAndMonsters ::
  "Diagram \<Rightarrow> Coordinate list \<Rightarrow> ColorSet \<Rightarrow> nat \<Rightarrow> bool option" where
  "scanTreasuresAndMonsters diagram [] color_set sign_count = Some True"
| "scanTreasuresAndMonsters diagram (c # rest) color_set sign_count =
     (case readCoord diagram c of
        None \<Rightarrow> None
      | Some t \<Rightarrow>
          (if t \<noteq> Tile WALL
           then (if hasKey (hashOf c) color_set
                 then (if sign_count \<le> 1
                       then scanTreasuresAndMonsters diagram rest color_set sign_count
                       else Some False)
                 else (if sign_count \<noteq> 0
                       then Some False
                       else (case bfsOpen diagram (sign_count + 1) [c] color_set of
                               None \<Rightarrow> None
                             | Some color_set' \<Rightarrow>
                                 scanTreasuresAndMonsters diagram rest color_set'
                                   (sign_count + 1))))
           else scanTreasuresAndMonsters diagram rest color_set sign_count))"

definition checkTreasuresAndMonstersConnectivity ::
  "Coordinate list \<Rightarrow> Coordinate list \<Rightarrow> Diagram \<Rightarrow> bool option" where
  "checkTreasuresAndMonstersConnectivity treasure_coords monster_coords diagram =
     scanTreasuresAndMonsters diagram (treasure_coords @ monster_coords) [] 0"

section \<open>Monster and treasure-room checks (lines 469--520)\<close>

fun checkMonsters :: "Coordinate list \<Rightarrow> Diagram \<Rightarrow> bool option" where
  "checkMonsters [] diagram = Some True"
| "checkMonsters (monster_coord # rest) diagram =
     (case readCoord diagram monster_coord of
        None \<Rightarrow> None
      | Some t \<Rightarrow>
          (if t = Tile MONSTER
           then (case isDeadEnds (cx monster_coord) (cy monster_coord) diagram of
                   None \<Rightarrow> None
                 | Some dead_end \<Rightarrow>
                     (if \<not> dead_end then Some False else checkMonsters rest diagram))
           else checkMonsters rest diagram))"

fun findTRoom :: "Diagram \<Rightarrow> Coordinate list \<Rightarrow> Coordinate option option" where
  \<comment> \<open>the inner loop of checkTreasureRooms: the first candidate that passes the three
      tests, \<open>Some None\<close> when there is none\<close>
  "findTRoom diagram [] = Some None"
| "findTRoom diagram (lt_coord # rest) =
     (if \<not> isTRoomLTCoordAvailable (cx lt_coord) (cy lt_coord)
      then findTRoom diagram rest
      else (case isTRoomTilesAvailable (cx lt_coord) (cy lt_coord) diagram of
              None \<Rightarrow> None
            | Some tiles_ok \<Rightarrow>
                (if \<not> tiles_ok
                 then findTRoom diagram rest
                 else (case isTRoomWallsAvailable (cx lt_coord) (cy lt_coord) diagram of
                         None \<Rightarrow> None
                       | Some walls_ok \<Rightarrow>
                           (if \<not> walls_ok then findTRoom diagram rest
                            else Some (Some lt_coord))))))"

fun treasureRoomsLoop ::
  "Coordinate list \<Rightarrow> Diagram \<Rightarrow> Coordinate list \<Rightarrow> (bool \<times> Coordinate list) option" where
  "treasureRoomsLoop [] diagram treasure_room_lt_coords = Some (True, treasure_room_lt_coords)"
| "treasureRoomsLoop (treasure_coord # rest) diagram treasure_room_lt_coords =
     (case readCoord diagram treasure_coord of
        None \<Rightarrow> None
      | Some t \<Rightarrow>
          (if t = Tile TREASURE
           then (case findTRoom diagram
                        (getTRoomLTCoords (cx treasure_coord) (cy treasure_coord)) of
                   None \<Rightarrow> None
                 | Some None \<Rightarrow> Some (False, [])
                 | Some (Some lt_coord) \<Rightarrow>
                     treasureRoomsLoop rest diagram (treasure_room_lt_coords @ [lt_coord]))
           else treasureRoomsLoop rest diagram treasure_room_lt_coords))"

definition checkTreasureRooms ::
  "Coordinate list \<Rightarrow> Diagram \<Rightarrow> (bool \<times> Coordinate list) option" where
  "checkTreasureRooms treasure_coords diagram = treasureRoomsLoop treasure_coords diagram []"

section \<open>Final validation (lines 527--597)\<close>

fun monstersAreDeadEnds :: "Coordinate list \<Rightarrow> Diagram \<Rightarrow> bool option" where
  \<comment> \<open>first loop of checkMonstersAndDeadEnds\<close>
  "monstersAreDeadEnds [] diagram = Some True"
| "monstersAreDeadEnds (monster_coord # rest) diagram =
     (case isDeadEnds (cx monster_coord) (cy monster_coord) diagram of
        None \<Rightarrow> None
      | Some dead_end \<Rightarrow>
          (if \<not> dead_end then Some False else monstersAreDeadEnds rest diagram))"

fun noEmptyDeadEnds :: "Coordinate list \<Rightarrow> Diagram \<Rightarrow> bool option" where
  \<comment> \<open>second loop of checkMonstersAndDeadEnds, over the interior\<close>
  "noEmptyDeadEnds [] diagram = Some True"
| "noEmptyDeadEnds (c # rest) diagram =
     (case readCoord diagram c of
        None \<Rightarrow> None
      | Some t \<Rightarrow>
          (if t = Tile EMPTY_SPACE
           then (case isDeadEnds (cx c) (cy c) diagram of
                   None \<Rightarrow> None
                 | Some dead_end \<Rightarrow>
                     (if dead_end then Some False else noEmptyDeadEnds rest diagram))
           else noEmptyDeadEnds rest diagram))"

definition checkMonstersAndDeadEnds :: "Coordinate list \<Rightarrow> Diagram \<Rightarrow> bool option" where
  "checkMonstersAndDeadEnds monster_coords diagram =
     (case monstersAreDeadEnds monster_coords diagram of
        None \<Rightarrow> None
      | Some ok \<Rightarrow> (if \<not> ok then Some False else noEmptyDeadEnds interiorCoords diagram))"

definition isOpenTile :: "Diagram \<Rightarrow> Coordinate list \<Rightarrow> Coordinate \<Rightarrow> bool option" where
  \<comment> \<open>\<open>diagram[c.x][c.y] === EMPTY_SPACE && !isContainedByTRoom(c.x, c.y, rooms)\<close>\<close>
  "isOpenTile diagram treasure_room_lt_coords c =
     map_option
       (\<lambda>t. t = Tile EMPTY_SPACE \<and> \<not> isContainedByTRoom (cx c) (cy c) treasure_room_lt_coords)
       (readCoord diagram c)"

definition spaceCount :: "Diagram \<Rightarrow> Coordinate list \<Rightarrow> Coordinate list \<Rightarrow> int option" where
  \<comment> \<open>the inner \<open>map(...).reduce\<close>: how many tiles of one corner group are open\<close>
  "spaceCount diagram treasure_room_lt_coords space =
     map_option (\<lambda>flags. sum_list (map (\<lambda>b. if b then 1 else 0) flags))
       (those (map (isOpenTile diagram treasure_room_lt_coords) space))"

definition hasOpenSpace :: "Diagram \<Rightarrow> Coordinate list \<Rightarrow> int \<Rightarrow> int \<Rightarrow> bool option" where
  \<comment> \<open>the outer \<open>map(...).reduce(...) > 0\<close> over the four corner groups\<close>
  "hasOpenSpace diagram treasure_room_lt_coords x y =
     map_option (\<lambda>counts. sum_list (map (\<lambda>n. if n \<ge> 3 then 1 else (0::int)) counts) > 0)
       (those (map (spaceCount diagram treasure_room_lt_coords) (get4TilesSpaces x y)))"

fun hallwayScan :: "Diagram \<Rightarrow> Coordinate list \<Rightarrow> Coordinate list \<Rightarrow> bool option" where
  "hallwayScan diagram treasure_room_lt_coords [] = Some True"
| "hallwayScan diagram treasure_room_lt_coords (c # rest) =
     (case isOpenTile diagram treasure_room_lt_coords c of
        None \<Rightarrow> None
      | Some is_open \<Rightarrow>
          (if is_open
           then (case hasOpenSpace diagram treasure_room_lt_coords (cx c) (cy c) of
                   None \<Rightarrow> None
                 | Some found \<Rightarrow>
                     (if found then Some False
                      else hallwayScan diagram treasure_room_lt_coords rest))
           else hallwayScan diagram treasure_room_lt_coords rest))"

definition checkHallways :: "Diagram \<Rightarrow> Coordinate list \<Rightarrow> bool option" where
  "checkHallways diagram treasure_room_lt_coords =
     hallwayScan diagram treasure_room_lt_coords interiorCoords"

definition isSolved :: "Coordinate list \<Rightarrow> Coordinate list \<Rightarrow> Diagram \<Rightarrow> bool option" where
  "isSolved treasure_coords monster_coords diagram =
     (case checkEmptySpacesConnectivity diagram of
        None \<Rightarrow> None
      | Some flag_connectivity \<Rightarrow>
          (if \<not> flag_connectivity then Some False
           else (case checkTreasureRooms treasure_coords diagram of
                   None \<Rightarrow> None
                 | Some (flag_treasures, treasure_room_lt_coords) \<Rightarrow>
                     (if \<not> flag_treasures then Some False
                      else (case checkMonstersAndDeadEnds monster_coords diagram of
                              None \<Rightarrow> None
                            | Some flag_monsters \<Rightarrow>
                                (if \<not> flag_monsters then Some False
                                 else (case checkHallways diagram treasure_room_lt_coords of
                                         None \<Rightarrow> None
                                       | Some falg_hallways \<Rightarrow>
                                           (if \<not> falg_hallways then Some False
                                            else Some True))))))))"

section \<open>Combination generator (lines 599--626)\<close>

text \<open>
  \<open>recursiveSelect\<close> pushes each finished combination on \<open>result\<close>; the model returns the
  combinations in the order in which they are pushed.
\<close>

function recursiveSelect :: "nat \<Rightarrow> nat \<Rightarrow> nat \<Rightarrow> nat list \<Rightarrow> nat list list" where
  "recursiveSelect m n step cur_combination =
     (if length cur_combination = m then [cur_combination]
      else if step \<ge> n then []
      else recursiveSelect m n (step + 1) (cur_combination @ [step]) @
           (if int (length cur_combination) + (int n - 1 - int step) \<ge> int m
            then recursiveSelect m n (step + 1) cur_combination
            else []))"
  by pat_completeness auto
termination
  by (relation "measure (\<lambda>(m, n, step, cur_combination). n - step)") auto

declare recursiveSelect.simps [simp del]

definition getCombinations :: "nat \<Rightarrow> nat \<Rightarrow> nat list list" where
  "getCombinations m n = (if m > n then [] else recursiveSelect m n 0 [])"

section \<open>Building the board (lines 163--177 and 912--932)\<close>

definition rawTile :: "RawDiagram \<Rightarrow> nat \<Rightarrow> nat \<Rightarrow> TileType option" where
  "rawTile raw_diagram x y =
     (case readTile raw_diagram (int x) (int y) of
        Some (Tile t) \<Rightarrow> Some t
      | _ \<Rightarrow> None)"

definition augmentRawDiagram :: "RawDiagram \<Rightarrow> Diagram option" where
  \<comment> \<open>\<open>None\<close> when one of the 64 reads of the raw diagram finds no tile: the parser only
      hands over 8 rows of 8 tiles\<close>
  "augmentRawDiagram raw_diagram =
     map_option
       (\<lambda>rows. replicate (nat SIDE_LENGTH) WALL #
                map (\<lambda>r. WALL # r @ [WALL]) rows @
                [replicate (nat SIDE_LENGTH) WALL])
       (those (map (\<lambda>x. those (map (rawTile raw_diagram x) [0..<RAW_SIDE_LENGTH]))
                 [0..<RAW_SIDE_LENGTH]))"

definition coordsOf :: "TileType \<Rightarrow> Coordinate list \<Rightarrow> cell list \<Rightarrow> Coordinate list" where
  "coordsOf t cs tiles = map fst (filter (\<lambda>(c, v). v = Tile t) (zip cs tiles))"

definition getTreasureAndMonsterCoords ::
  "Diagram \<Rightarrow> (Coordinate list \<times> Coordinate list) option" where
  "getTreasureAndMonsterCoords diagram =
     map_option
       (\<lambda>tiles. (coordsOf TREASURE interiorCoords tiles, coordsOf MONSTER interiorCoords tiles))
       (readTiles diagram interiorCoords)"

section \<open>The search (lines 628--910)\<close>

text \<open>
  \<open>dfs\<close> mutates the board, the two counter arrays and three lists in place and returns a
  boolean. The model passes this state explicitly: a call returns the boolean together
  with the state it leaves behind. The parameter \<open>step\<close> of the source is only ever
  incremented and never read, and is left out. The arguments that no call changes are
  collected in \<open>puzzle\<close>.
\<close>

record dfs_state =
  cur_row_projection :: Projection
  cur_column_projection :: Projection
  handled_treasure_ids :: "int list"
  handled_monster_ids :: "int list"
  treasure_room_lt_coords :: "Coordinate list"
  diagram :: Diagram

record puzzle =
  row_projection :: Projection
  column_projection :: Projection
  treasure_coords :: "Coordinate list"
  monster_coords :: "Coordinate list"

text \<open>
  The recursion of \<open>dfs\<close> is bounded by fuel, the depth of recursive calls that is still
  allowed. A call ends in one of three ways: it returns, it raises (a read of a row
  outside the board, or an assignment outside the arrays), or it needs a deeper
  recursion than the fuel allows. Theorem \<open>dfs_terminates\<close> below shows that the third
  case does not arise once the fuel exceeds a bound computed from the state.
\<close>

datatype dfs_result = OutOfFuel | Raised | Returned bool dfs_state

text \<open>
  What a loop body hands to the code around it: \<open>Exit r\<close> when \<open>dfs\<close> is left from inside
  the loop (a \<open>return\<close>, or an exception passing through), \<open>Next v\<close> when the loop ran to
  its end.
\<close>

datatype 'a flow = Exit dfs_result | Next 'a

definition setTile :: "Diagram \<Rightarrow> int \<Rightarrow> int \<Rightarrow> TileType \<Rightarrow> Diagram option" where
  \<comment> \<open>\<open>diagram[x][y] = t\<close>. The search only assigns tiles that it has read before; an
      assignment outside the board is \<open>None\<close>.\<close>
  "setTile d x y t =
     (if inIndex x d \<and> inIndex y (d ! nat x)
      then Some (d[nat x := (d ! nat x)[nat y := t]])
      else None)"

definition addAt :: "Projection \<Rightarrow> int \<Rightarrow> int \<Rightarrow> Projection option" where
  \<comment> \<open>\<open>counters[i] += k\<close>, \<open>None\<close> outside the array\<close>
  "addAt counters i k =
     (if inIndex i counters then Some (counters[nat i := counters ! nat i + k]) else None)"

definition putTile :: "TileType \<Rightarrow> int \<Rightarrow> Coordinate \<Rightarrow> dfs_state \<Rightarrow> dfs_state option" where
  \<comment> \<open>the three assignments \<open>diagram[x][y] = t; cur_row_projection[x - 1] += k;
      cur_column_projection[y - 1] += k\<close>, with \<open>t = WALL, k = 1\<close> to place a wall and
      \<open>t = EMPTY_SPACE, k = -1\<close> to take it back\<close>
  "putTile t k c s =
     (case setTile (diagram s) (cx c) (cy c) t of
        None \<Rightarrow> None
      | Some d' \<Rightarrow>
          (case addAt (cur_row_projection s) (cx c - 1) k of
             None \<Rightarrow> None
           | Some rows' \<Rightarrow>
               (case addAt (cur_column_projection s) (cy c - 1) k of
                  None \<Rightarrow> None
                | Some columns' \<Rightarrow>
                    Some (s\<lparr>diagram := d', cur_row_projection := rows',
                            cur_column_projection := columns'\<rparr>))))"

fun putTiles ::
  "TileType \<Rightarrow> int \<Rightarrow> Coordinate list \<Rightarrow> nat list \<Rightarrow> dfs_state \<Rightarrow> dfs_state option" where
  \<comment> \<open>\<open>for (index of indices) { put the tile at coords[index] }\<close>: the undo loops of the
      treasure and monster phases and both loops over a combination\<close>
  "putTiles t k coords [] s = Some s"
| "putTiles t k coords (index # rest) s =
     (if index < length coords
      then (case putTile t k (coords ! index) s of
              None \<Rightarrow> None
            | Some s' \<Rightarrow> putTiles t k coords rest s')
      else None)"

fun placeAllButOne ::
  "puzzle \<Rightarrow> nat \<Rightarrow> (nat \<times> Coordinate) list \<Rightarrow> dfs_state \<Rightarrow> nat list \<Rightarrow>
   (dfs_state \<times> nat list) option" where
  \<comment> \<open>the loop over \<open>j\<close> (lines 678--693 and 770--785), over the indexed empty tiles\<close>
  "placeAllButOne p i [] s placed_indices = Some (s, placed_indices)"
| "placeAllButOne p i ((j, coord) # rest) s placed_indices =
     (if j \<noteq> i
      then (if \<not> isTilePlacable (cx coord - 1) (cy coord - 1)
                   (cur_row_projection s) (cur_column_projection s)
                   (row_projection p) (column_projection p)
            then Some (s, placed_indices)
            else (case putTile WALL 1 coord s of
                    None \<Rightarrow> None
                  | Some s' \<Rightarrow> placeAllButOne p i rest s' (placed_indices @ [j])))
      else placeAllButOne p i rest s placed_indices)"

text \<open>
  The loops over \<open>i\<close> of the treasure phase (lines 675--723) and of the monster phase
  (lines 767--813) are the same code but for the lists they push on and pop from.
\<close>

datatype handled = TreasureRoom int Coordinate | MonsterTile int

fun pushHandled :: "handled \<Rightarrow> dfs_state \<Rightarrow> dfs_state" where
  "pushHandled (TreasureRoom hash_id lt_coord) s =
     s\<lparr>handled_treasure_ids := handled_treasure_ids s @ [hash_id],
       treasure_room_lt_coords := treasure_room_lt_coords s @ [lt_coord]\<rparr>"
| "pushHandled (MonsterTile hash_id) s =
     s\<lparr>handled_monster_ids := handled_monster_ids s @ [hash_id]\<rparr>"

fun popHandled :: "handled \<Rightarrow> dfs_state \<Rightarrow> dfs_state" where
  "popHandled (TreasureRoom hash_id lt_coord) s =
     s\<lparr>handled_treasure_ids := butlast (handled_treasure_ids s),
       treasure_room_lt_coords := butlast (treasure_room_lt_coords s)\<rparr>"
| "popHandled (MonsterTile hash_id) s =
     s\<lparr>handled_monster_ids := butlast (handled_monster_ids s)\<rparr>"

definition tryAssignment ::
  "(dfs_state \<Rightarrow> dfs_result) \<Rightarrow> puzzle \<Rightarrow> handled \<Rightarrow> nat \<Rightarrow> nat \<Rightarrow> dfs_state \<Rightarrow> bool \<Rightarrow>
   (dfs_state \<times> bool) flow" where
  \<comment> \<open>lines 695--711 and 787--801: the recursive call, when all tiles but one are placed
      and the treasures and monsters are still connected\<close>
  "tryAssignment recurse p h number_placed number_empty s is_satisfied =
     (if int number_placed = int number_empty - 1
      then (case checkTreasuresAndMonstersConnectivity
                   (treasure_coords p) (monster_coords p) (diagram s) of
              None \<Rightarrow> Exit Raised
            | Some connected \<Rightarrow>
                (if connected
                 then (case recurse (pushHandled h s) of
                         Returned found s' \<Rightarrow>
                           (if found then Exit (Returned True s')
                            else Next (popHandled h s', True))
                       | OutOfFuel \<Rightarrow> Exit OutOfFuel
                       | Raised \<Rightarrow> Exit Raised)
                 else Next (s, is_satisfied)))
      else Next (s, is_satisfied))"

fun assignLoop ::
  "(dfs_state \<Rightarrow> dfs_result) \<Rightarrow> puzzle \<Rightarrow> handled \<Rightarrow> Coordinate list \<Rightarrow> nat list \<Rightarrow>
   dfs_state \<Rightarrow> bool \<Rightarrow> (dfs_state \<times> bool) flow" where
  "assignLoop recurse p h empty_space_coords [] s is_satisfied = Next (s, is_satisfied)"
| "assignLoop recurse p h empty_space_coords (i # rest) s is_satisfied =
     (case placeAllButOne p i (enumerate 0 empty_space_coords) s [] of
        None \<Rightarrow> Exit Raised
      | Some (s1, placed_indices) \<Rightarrow>
          (case tryAssignment recurse p h (length placed_indices) (length empty_space_coords)
                  s1 is_satisfied of
             Exit r \<Rightarrow> Exit r
           | Next (s2, is_satisfied') \<Rightarrow>
               (case putTiles EMPTY_SPACE (- 1) empty_space_coords placed_indices s2 of
                  None \<Rightarrow> Exit Raised
                | Some s3 \<Rightarrow>
                    assignLoop recurse p h empty_space_coords rest s3 is_satisfied')))"

fun roomLoop ::
  "(dfs_state \<Rightarrow> dfs_result) \<Rightarrow> puzzle \<Rightarrow> int \<Rightarrow> Coordinate list \<Rightarrow> dfs_state \<Rightarrow> bool \<Rightarrow>
   (dfs_state \<times> bool) flow" where
  \<comment> \<open>\<open>lroom_loop\<close>, lines 652--725\<close>
  "roomLoop recurse p hash_id [] s is_satisfied = Next (s, is_satisfied)"
| "roomLoop recurse p hash_id (lt_coord # rest) s is_satisfied =
     (if \<not> isTRoomLTCoordAvailable (cx lt_coord) (cy lt_coord)
      then roomLoop recurse p hash_id rest s is_satisfied
      else (case isTRoomTilesAvailable (cx lt_coord) (cy lt_coord) (diagram s) of
              None \<Rightarrow> Exit Raised
            | Some tiles_ok \<Rightarrow>
                (if \<not> tiles_ok
                 then roomLoop recurse p hash_id rest s is_satisfied
                 else (case readTiles (diagram s)
                              (getTRoomOuterTileCoords (cx lt_coord) (cy lt_coord)) of
                         None \<Rightarrow> Exit Raised
                       | Some tiles \<Rightarrow>
                           (if list_ex (\<lambda>t. t \<noteq> Tile WALL \<and> t \<noteq> Tile EMPTY_SPACE) tiles
                            then roomLoop recurse p hash_id rest s is_satisfied
                            else if length (coordsOf EMPTY_SPACE
                                      (getTRoomOuterTileCoords (cx lt_coord) (cy lt_coord))
                                      tiles) < 1
                            then Exit (Returned False s)
                            else (case assignLoop recurse p (TreasureRoom hash_id lt_coord)
                                         (coordsOf EMPTY_SPACE
                                            (getTRoomOuterTileCoords (cx lt_coord) (cy lt_coord))
                                            tiles)
                                         [0..<length (coordsOf EMPTY_SPACE
                                            (getTRoomOuterTileCoords (cx lt_coord) (cy lt_coord))
                                            tiles)]
                                         s is_satisfied of
                                    Exit r \<Rightarrow> Exit r
                                  | Next (s', is_satisfied') \<Rightarrow>
                                      roomLoop recurse p hash_id rest s' is_satisfied'))))))"

fun treasureLoop ::
  "(dfs_state \<Rightarrow> dfs_result) \<Rightarrow> puzzle \<Rightarrow> Coordinate list \<Rightarrow> dfs_state \<Rightarrow> dfs_state flow" where
  \<comment> \<open>"Enumerate treasures", lines 640--730\<close>
  "treasureLoop recurse p [] s = Next s"
| "treasureLoop recurse p (treasure_coord # rest) s =
     (case readCoord (diagram s) treasure_coord of
        None \<Rightarrow> Exit Raised
      | Some t \<Rightarrow>
          (if \<not> (t = Tile TREASURE \<and> hashOf treasure_coord \<notin> set (handled_treasure_ids s))
           then treasureLoop recurse p rest s
           else (case roomLoop recurse p (hashOf treasure_coord)
                        (getTRoomLTCoords (cx treasure_coord) (cy treasure_coord)) s False of
                   Exit r \<Rightarrow> Exit r
                 | Next (s', is_satisfied) \<Rightarrow>
                     (if \<not> is_satisfied then Exit (Returned False s')
                      else treasureLoop recurse p rest s'))))"

fun monsterLoop ::
  "(dfs_state \<Rightarrow> dfs_result) \<Rightarrow> puzzle \<Rightarrow> Coordinate list \<Rightarrow> dfs_state \<Rightarrow> dfs_state flow" where
  \<comment> \<open>"Enumerate monsters", lines 737--819\<close>
  "monsterLoop recurse p [] s = Next s"
| "monsterLoop recurse p (monster_coord # rest) s =
     (case readCoord (diagram s) monster_coord of
        None \<Rightarrow> Exit Raised
      | Some t \<Rightarrow>
          (if \<not> (t = Tile MONSTER \<and> hashOf monster_coord \<notin> set (handled_monster_ids s))
           then monsterLoop recurse p rest s
           else (case readTiles (diagram s)
                        (get4DirectionCoords (cx monster_coord) (cy monster_coord)) of
                   None \<Rightarrow> Exit Raised
                 | Some tiles \<Rightarrow>
                     (if list_ex (\<lambda>t. t \<noteq> Tile EMPTY_SPACE \<and> t \<noteq> Tile WALL) tiles
                      then Exit (Returned False s)
                      else if count_list tiles (Tile WALL) \<ge> 4
                      then Exit (Returned False s)
                      else (case assignLoop recurse p (MonsterTile (hashOf monster_coord))
                                   (coordsOf EMPTY_SPACE
                                      (get4DirectionCoords (cx monster_coord) (cy monster_coord))
                                      tiles)
                                   [0..<length (coordsOf EMPTY_SPACE
                                      (get4DirectionCoords (cx monster_coord) (cy monster_coord))
                                      tiles)]
                                   s False of
                              Exit r \<Rightarrow> Exit r
                            | Next (s', is_satisfied) \<Rightarrow>
                                (if \<not> is_satisfied then Exit (Returned False s')
                                 else monsterLoop recurse p rest s'))))))"

definition preChecks :: "puzzle \<Rightarrow> Diagram \<Rightarrow> bool option" where
  \<comment> \<open>\<open>checkTreasureRooms(...) && checkMonsters(...) &&
      checkTreasuresAndMonstersConnectivity(...)\<close> (lines 854--856 and 881--883).
      \<open>checkTreasureRooms\<close> returns an array \<open>[flag, rooms]\<close>, and an array is truthy in
      JavaScript whatever it holds: the call is made, and \<open>&&\<close> goes on to the second
      check whatever the flag says.\<close>
  "preChecks p d =
     (case checkTreasureRooms (treasure_coords p) d of
        None \<Rightarrow> None
      | Some rooms \<Rightarrow>
          (case checkMonsters (monster_coords p) d of
             None \<Rightarrow> None
           | Some monsters_ok \<Rightarrow>
               (if monsters_ok
                then checkTreasuresAndMonstersConnectivity
                       (treasure_coords p) (monster_coords p) d
                else Some False)))"

definition columnFull :: "Projection \<Rightarrow> Projection \<Rightarrow> nat \<Rightarrow> bool" where
  \<comment> \<open>\<open>cur_column_projection[i] >= column_projection[i]\<close>; a comparison with
      \<open>undefined\<close> is false\<close>
  "columnFull cur_columns columns column_i =
     (case (readIndex cur_columns (int column_i), readIndex columns (int column_i)) of
        (Some a, Some b) \<Rightarrow> a \<ge> b
      | _ \<Rightarrow> False)"

fun collectAvailable ::
  "puzzle \<Rightarrow> nat \<Rightarrow> nat list \<Rightarrow> dfs_state \<Rightarrow> Coordinate list \<Rightarrow>
   (dfs_state \<times> Coordinate list) option" where
  \<comment> \<open>the loop over \<open>column_i\<close> that fills \<open>available_coords\<close>, lines 835--863\<close>
  "collectAvailable p row_i [] s available_coords = Some (s, available_coords)"
| "collectAvailable p row_i (column_i # rest) s available_coords =
     (if columnFull (cur_column_projection s) (column_projection p) column_i
      then collectAvailable p row_i rest s available_coords
      else (case readTile (diagram s) (int row_i + 1) (int column_i + 1) of
              None \<Rightarrow> None
            | Some t \<Rightarrow>
                (if \<not> (t = Tile EMPTY_SPACE \<and>
                        \<not> isContainedByTRoom (int row_i + 1) (int column_i + 1)
                            (treasure_room_lt_coords s) \<and>
                        isTilePlacable (int row_i) (int column_i)
                          (cur_row_projection s) (cur_column_projection s)
                          (row_projection p) (column_projection p))
                 then collectAvailable p row_i rest s available_coords
                 else (case putTile WALL 1 (Coord (int row_i + 1) (int column_i + 1)) s of
                         None \<Rightarrow> None
                       | Some s1 \<Rightarrow>
                           (case preChecks p (diagram s1) of
                              None \<Rightarrow> None
                            | Some ok \<Rightarrow>
                                (case putTile EMPTY_SPACE (- 1)
                                        (Coord (int row_i + 1) (int column_i + 1)) s1 of
                                   None \<Rightarrow> None
                                 | Some s2 \<Rightarrow>
                                     collectAvailable p row_i rest s2
                                       (if ok
                                        then available_coords @
                                               [Coord (int row_i + 1) (int column_i + 1)]
                                        else available_coords)))))))"

definition tryCombination ::
  "(dfs_state \<Rightarrow> dfs_result) \<Rightarrow> puzzle \<Rightarrow> dfs_state \<Rightarrow> bool \<Rightarrow> (dfs_state \<times> bool) flow" where
  \<comment> \<open>lines 881--892\<close>
  "tryCombination recurse p s is_satisfied =
     (case preChecks p (diagram s) of
        None \<Rightarrow> Exit Raised
      | Some ok \<Rightarrow>
          (if ok
           then (case recurse s of
                   Returned found s' \<Rightarrow>
                     (if found then Exit (Returned True s') else Next (s', True))
                 | OutOfFuel \<Rightarrow> Exit OutOfFuel
                 | Raised \<Rightarrow> Exit Raised)
           else Next (s, is_satisfied)))"

fun combinationLoop ::
  "(dfs_state \<Rightarrow> dfs_result) \<Rightarrow> puzzle \<Rightarrow> Coordinate list \<Rightarrow> nat list list \<Rightarrow>
   dfs_state \<Rightarrow> bool \<Rightarrow> (dfs_state \<times> bool) flow" where
  \<comment> \<open>the loop over the combinations, lines 871--902\<close>
  "combinationLoop recurse p available_coords [] s is_satisfied = Next (s, is_satisfied)"
| "combinationLoop recurse p available_coords (combination # rest) s is_satisfied =
     (case putTiles WALL 1 available_coords combination s of
        None \<Rightarrow> Exit Raised
      | Some s1 \<Rightarrow>
          (case tryCombination recurse p s1 is_satisfied of
             Exit r \<Rightarrow> Exit r
           | Next (s2, is_satisfied') \<Rightarrow>
               (case putTiles EMPTY_SPACE (- 1) available_coords combination s2 of
                  None \<Rightarrow> Exit Raised
                | Some s3 \<Rightarrow>
                    combinationLoop recurse p available_coords rest s3 is_satisfied')))"

definition rowDifference :: "puzzle \<Rightarrow> dfs_state \<Rightarrow> nat \<Rightarrow> int option" where
  \<comment> \<open>\<open>row_projection[row_i] - cur_row_projection[row_i]\<close>; \<open>None\<close> is NaN, the
      difference when one of the two is \<open>undefined\<close>\<close>
  "rowDifference p s row_i =
     (case (readIndex (row_projection p) (int row_i),
            readIndex (cur_row_projection s) (int row_i)) of
        (Some a, Some b) \<Rightarrow> Some (a - b)
      | _ \<Rightarrow> None)"

fun deficitLoop ::
  "(dfs_state \<Rightarrow> dfs_result) \<Rightarrow> puzzle \<Rightarrow> nat list \<Rightarrow> dfs_state \<Rightarrow> dfs_state flow" where
  \<comment> \<open>"Enumerate empty spaces", lines 826--907. With a difference that is NaN every
      comparison is false: the candidates are collected, \<open>getCombinations\<close> returns no
      combination and the call returns false.\<close>
  "deficitLoop recurse p [] s = Next s"
| "deficitLoop recurse p (row_i # rest) s =
     (case rowDifference p s row_i of
        None \<Rightarrow>
          (case collectAvailable p row_i [0..<length (cur_column_projection s)] s [] of
             None \<Rightarrow> Exit Raised
           | Some (s1, available_coords) \<Rightarrow> Exit (Returned False s1))
      | Some difference \<Rightarrow>
          (if difference \<le> 0
           then deficitLoop recurse p rest s
           else (case collectAvailable p row_i [0..<length (cur_column_projection s)] s [] of
                   None \<Rightarrow> Exit Raised
                 | Some (s1, available_coords) \<Rightarrow>
                     (if int (length available_coords) < difference
                      then Exit (Returned False s1)
                      else (case combinationLoop recurse p available_coords
                                   (getCombinations (nat difference) (length available_coords))
                                   s1 False of
                              Exit r \<Rightarrow> Exit r
                            | Next (s2, is_satisfied) \<Rightarrow>
                                (if \<not> is_satisfied then Exit (Returned False s2)
                                 else deficitLoop recurse p rest s2))))))"

definition dfs_body :: "(dfs_state \<Rightarrow> dfs_result) \<Rightarrow> puzzle \<Rightarrow> dfs_state \<Rightarrow> dfs_result" where
  \<comment> \<open>the body of \<open>dfs\<close>, with \<open>recurse\<close> for its recursive calls\<close>
  "dfs_body recurse p s =
     (if isSatisfiedProjections (cur_row_projection s) (cur_column_projection s)
           (row_projection p) (column_projection p)
      then (case isSolved (treasure_coords p) (monster_coords p) (diagram s) of
              None \<Rightarrow> Raised
            | Some solved \<Rightarrow> Returned solved s)
      else (case treasureLoop recurse p (treasure_coords p) s of
              Exit r \<Rightarrow> r
            | Next s1 \<Rightarrow>
                (if length (handled_treasure_ids s1) \<noteq> length (treasure_coords p)
                 then Returned False s1
                 else (case monsterLoop recurse p (monster_coords p) s1 of
                         Exit r \<Rightarrow> r
                       | Next s2 \<Rightarrow>
                           (if length (handled_monster_ids s2) \<noteq> length (monster_coords p)
                            then Returned False s2
                            else (case deficitLoop recurse p
                                         [0..<length (cur_row_projection s2)] s2 of
                                    Exit r \<Rightarrow> r
                                  | Next s3 \<Rightarrow> Returned False s3))))))"

primrec dfs :: "nat \<Rightarrow> puzzle \<Rightarrow> dfs_state \<Rightarrow> dfs_result" where
  "dfs 0 p s = OutOfFuel"
| "dfs (Suc fuel) p s = dfs_body (dfs fuel p) p s"

section \<open>The entry point (lines 956--966)\<close>

definition initialState :: "Diagram \<Rightarrow> dfs_state" where
  "initialState d =
     \<lparr>cur_row_projection = [0, 0, 0, 0, 0, 0, 0, 0],
      cur_column_projection = [0, 0, 0, 0, 0, 0, 0, 0],
      handled_treasure_ids = [], handled_monster_ids = [],
      treasure_room_lt_coords = [], diagram = d\<rparr>"

definition solve :: "nat \<Rightarrow> Projection \<Rightarrow> Projection \<Rightarrow> RawDiagram \<Rightarrow> dfs_result" where
  \<comment> \<open>the first call of \<open>dfs\<close>, on the parsed input\<close>
  "solve fuel rows columns raw_diagram =
     (case augmentRawDiagram raw_diagram of
        None \<Rightarrow> Raised
      | Some d \<Rightarrow>
          (case getTreasureAndMonsterCoords d of
             None \<Rightarrow> Raised
           | Some (treasures, monsters) \<Rightarrow>
               dfs fuel
                 \<lparr>row_projection = rows, column_projection = columns,
                  treasure_coords = treasures, monster_coords = monsters\<rparr>
                 (initialState d)))"

section \<open>The combination generator is the spec's enumeration\<close>

text \<open>
  The specification's wording of the generator (section 4.5): depth-first over the
  indices in increasing order, at each index first the subsets that include it, then
  the subsets that skip it. \<open>subsetsInOrder\<close> follows these words; \<open>recursiveSelect\<close>
  above follows the source.
\<close>

fun subsetsInOrder :: "nat \<Rightarrow> nat list \<Rightarrow> nat list list" where
  "subsetsInOrder 0 xs = [[]]"
| "subsetsInOrder (Suc k) [] = []"
| "subsetsInOrder (Suc k) (x # xs) =
     map ((#) x) (subsetsInOrder k xs) @ subsetsInOrder (Suc k) xs"

lemma subsetsInOrder_short: "length xs < k \<Longrightarrow> subsetsInOrder k xs = []"
  by (induction k xs rule: subsetsInOrder.induct) auto

lemma length_subsetsInOrder: "length (subsetsInOrder k xs) = length xs choose k"
  by (induction k xs rule: subsetsInOrder.induct) auto

lemma set_subsetsInOrder:
  "sorted_wrt (<) xs \<Longrightarrow>
   set (subsetsInOrder k xs) = {ys. length ys = k \<and> sorted_wrt (<) ys \<and> set ys \<subseteq> set xs}"
proof (induction k xs rule: subsetsInOrder.induct)
  case (1 xs)
  then show ?case by auto
next
  case (2 k)
  then show ?case by auto
next
  case (3 k x xs)
  have sx: "sorted_wrt (<) xs" and gt: "\<forall>z \<in> set xs. x < z"
    using "3.prems" by auto
  have ih1: "set (subsetsInOrder k xs) = {ys. length ys = k \<and> sorted_wrt (<) ys \<and> set ys \<subseteq> set xs}"
    using "3.IH"(1) sx by simp
  have ih2: "set (subsetsInOrder (Suc k) xs) =
      {ys. length ys = Suc k \<and> sorted_wrt (<) ys \<and> set ys \<subseteq> set xs}"
    using "3.IH"(2) sx by simp
  show ?case
  proof (rule set_eqI, rule iffI)
    fix ys
    assume "ys \<in> set (subsetsInOrder (Suc k) (x # xs))"
    then consider zs where "ys = x # zs" "zs \<in> set (subsetsInOrder k xs)"
      | "ys \<in> set (subsetsInOrder (Suc k) xs)"
      by auto
    then show "ys \<in> {ys. length ys = Suc k \<and> sorted_wrt (<) ys \<and> set ys \<subseteq> set (x # xs)}"
    proof cases
      case 1
      then show ?thesis using ih1 gt by auto
    next
      case 2
      then show ?thesis using ih2 by auto
    qed
  next
    fix ys
    assume "ys \<in> {ys. length ys = Suc k \<and> sorted_wrt (<) ys \<and> set ys \<subseteq> set (x # xs)}"
    then have l: "length ys = Suc k" and s: "sorted_wrt (<) ys" and sub: "set ys \<subseteq> set (x # xs)"
      by auto
    from l obtain y zs where ys: "ys = y # zs" by (cases ys) auto
    have zs: "length zs = k" "sorted_wrt (<) zs" "\<forall>z \<in> set zs. y < z"
      using l s ys by auto
    show "ys \<in> set (subsetsInOrder (Suc k) (x # xs))"
    proof (cases "y = x")
      case True
      have "set zs \<subseteq> set xs" using sub ys zs(3) True by auto
      then have "zs \<in> set (subsetsInOrder k xs)" using ih1 zs by simp
      then show ?thesis using ys True by simp
    next
      case False
      then have yin: "y \<in> set xs" using sub ys by auto
      then have "x < y" using gt by simp
      then have "set zs \<subseteq> set xs" using sub ys zs(3) by force
      then have "ys \<in> set (subsetsInOrder (Suc k) xs)" using ih2 ys yin l s by simp
      then show ?thesis by simp
    qed
  qed
qed

lemma distinct_subsetsInOrder:
  "sorted_wrt (<) xs \<Longrightarrow> distinct (subsetsInOrder k xs)"
proof (induction k xs rule: subsetsInOrder.induct)
  case (3 k x xs)
  have sx: "sorted_wrt (<) xs" and gt: "\<forall>z \<in> set xs. x < z"
    using "3.prems" by auto
  have d1: "distinct (map ((#) x) (subsetsInOrder k xs))"
    using "3.IH"(1) sx by (simp add: distinct_map inj_on_def)
  have d2: "distinct (subsetsInOrder (Suc k) xs)" using "3.IH"(2) sx by simp
  have "set (map ((#) x) (subsetsInOrder k xs)) \<inter> set (subsetsInOrder (Suc k) xs) = {}"
    using set_subsetsInOrder[OF sx, of "Suc k"] gt by auto
  then show ?case using d1 d2 by simp
qed auto

lemma recursiveSelect_eq:
  "length cur \<le> m \<Longrightarrow>
   recursiveSelect m n step cur = map ((@) cur) (subsetsInOrder (m - length cur) [step..<n])"
proof (induction m n step cur rule: recursiveSelect.induct)
  case (1 m n step cur)
  show ?case
  proof (cases "length cur = m")
    case True
    then show ?thesis by (subst recursiveSelect.simps) simp
  next
    case False
    then have lt: "length cur < m" using "1.prems" by simp
    then obtain k where k: "m - length cur = Suc k" by (cases "m - length cur") auto
    show ?thesis
    proof (cases "step \<ge> n")
      case True
      then show ?thesis using False k by (subst recursiveSelect.simps) simp
    next
      case F2: False
      then have up: "[step..<n] = step # [step + 1..<n]" by (simp add: upt_conv_Cons)
      have ih1: "recursiveSelect m n (step + 1) (cur @ [step]) =
          map ((@) (cur @ [step])) (subsetsInOrder k [step + 1..<n])"
      proof -
        have k': "m - length (cur @ [step]) = k" using k by simp
        have "length (cur @ [step]) \<le> m" using lt by simp
        from "1.IH"(1)[OF False F2 this] show ?thesis unfolding k' .
      qed
      have part2: "(if int (length cur) + (int n - 1 - int step) \<ge> int m
            then recursiveSelect m n (step + 1) cur else []) =
          map ((@) cur) (subsetsInOrder (Suc k) [step + 1..<n])"
      proof (cases "int (length cur) + (int n - 1 - int step) \<ge> int m")
        case True
        from "1.IH"(2)[OF False F2 True "1.prems"] show ?thesis using True k by simp
      next
        case F3: False
        then have "length [step + 1..<n] < Suc k" using k F2 by simp
        then show ?thesis using F3 subsetsInOrder_short by simp
      qed
      have "recursiveSelect m n step cur =
          recursiveSelect m n (step + 1) (cur @ [step]) @
           (if int (length cur) + (int n - 1 - int step) \<ge> int m
            then recursiveSelect m n (step + 1) cur else [])"
        using False F2 by (subst recursiveSelect.simps) simp
      also have "\<dots> = map ((@) (cur @ [step])) (subsetsInOrder k [step + 1..<n]) @
          map ((@) cur) (subsetsInOrder (Suc k) [step + 1..<n])"
        unfolding ih1 part2 ..
      also have "\<dots> = map ((@) cur) (subsetsInOrder (Suc k) (step # [step + 1..<n]))"
        by (simp add: comp_def)
      finally show ?thesis unfolding k up .
    qed
  qed
qed

lemma getCombinations_eq: "m \<le> n \<Longrightarrow> getCombinations m n = subsetsInOrder m [0..<n]"
proof -
  have "(@) ([]::nat list) = (\<lambda>ys. ys)" by (rule ext) simp
  then show ?thesis if "m \<le> n"
    using that by (simp add: getCombinations_def recursiveSelect_eq)
qed

text \<open>
  Claim C9. For \<open>m \<le> n\<close>, \<open>getCombinations m n\<close> returns exactly \<open>n choose m\<close> lists, no
  two of them equal; they are exactly the strictly increasing lists of \<open>m\<close> indices
  below \<open>n\<close>, in the depth-first, include-first order of the specification. For
  \<open>m > n\<close> it returns the empty list.
\<close>

theorem getCombinations_correct:
  "(m \<le> n \<longrightarrow>
      length (getCombinations m n) = n choose m \<and>
      distinct (getCombinations m n) \<and>
      set (getCombinations m n) =
        {c. length c = m \<and> sorted_wrt (<) c \<and> set c \<subseteq> {0..<n}} \<and>
      getCombinations m n = subsetsInOrder m [0..<n]) \<and>
   (m > n \<longrightarrow> getCombinations m n = [])"
proof (intro conjI impI)
  assume mn: "m \<le> n"
  have s: "sorted_wrt (<) [0..<n]" by simp
  show "length (getCombinations m n) = n choose m"
    using getCombinations_eq[OF mn] length_subsetsInOrder[of m "[0..<n]"] by simp
  show "distinct (getCombinations m n)"
    using getCombinations_eq[OF mn] distinct_subsetsInOrder[OF s] by simp
  show "set (getCombinations m n) =
        {c. length c = m \<and> sorted_wrt (<) c \<and> set c \<subseteq> {0..<n}}"
    using getCombinations_eq[OF mn] set_subsetsInOrder[OF s, of m] by simp
  show "getCombinations m n = subsetsInOrder m [0..<n]" by (rule getCombinations_eq[OF mn])
next
  assume "n < m"
  then show "getCombinations m n = []" by (simp add: getCombinations_def)
qed

theorem getCombinations_correct_witness:
  "(2::nat) \<le> 4 \<and> getCombinations 2 4 = [[0, 1], [0, 2], [0, 3], [1, 2], [1, 3], [2, 3]] \<and>
   length (getCombinations 2 4) = 6 \<and> \<not> (4::nat) < 2 \<and> (5::nat) > 3 \<and> getCombinations 5 3 = []"
proof -
  have le: "(2::nat) \<le> 4" by simp
  have gt: "(5::nat) > 3" by simp
  note t = getCombinations_correct[of 2 4, THEN conjunct1, rule_format, OF le]
  have a: "getCombinations 2 4 = subsetsInOrder 2 [0..<4]"
    using t by blast
  have b: "length (getCombinations 2 4) = 4 choose 2"
    using t by blast
  have c: "getCombinations 5 3 = []"
    by (rule getCombinations_correct[of 5 3, THEN conjunct2, rule_format, OF gt])
  have d: "subsetsInOrder 2 [0..<4] = [[0, 1], [0, 2], [0, 3], [1, 2], [1, 3], [2, 3]]"
    by code_simp
  have e: "(4::nat) choose 2 = 6" by code_simp
  show ?thesis using a b c d e by simp
qed

section \<open>Concrete puzzles\<close>

text \<open>
  Boards and puzzles on which the theorems below run the model. A raw diagram is what
  the parser hands over (8 rows of 8 tiles); the board is what \<open>augmentRawDiagram\<close>
  makes of it.
\<close>

definition wallRaw :: RawDiagram where
  "wallRaw = replicate 8 (replicate 8 WALL)"

definition wallBoard :: Diagram where
  "wallBoard = replicate 10 (replicate 10 WALL)"

definition emptyRaw :: RawDiagram where
  "emptyRaw = replicate 8 (replicate 8 EMPTY_SPACE)"

definition borderRow :: DiagramRow where
  "borderRow = replicate 10 WALL"

definition emptyBoard :: Diagram where
  "emptyBoard =
     borderRow # replicate 8 (WALL # replicate 8 EMPTY_SPACE @ [WALL]) @ [borderRow]"

definition oneWallRaw :: RawDiagram where
  "oneWallRaw = (WALL # replicate 7 EMPTY_SPACE) # replicate 7 (replicate 8 EMPTY_SPACE)"

definition oneWallBoard :: Diagram where
  "oneWallBoard =
     borderRow # (WALL # WALL # replicate 7 EMPTY_SPACE @ [WALL]) #
     replicate 7 (WALL # replicate 8 EMPTY_SPACE @ [WALL]) @ [borderRow]"

definition noWalls :: Projection where
  "noWalls = [0, 0, 0, 0, 0, 0, 0, 0]"

definition twoMonstersRaw :: RawDiagram where
  "twoMonstersRaw = (MONSTER # MONSTER # replicate 6 WALL) # replicate 7 (replicate 8 WALL)"

definition twoMonstersBoard :: Diagram where
  "twoMonstersBoard =
     borderRow # (WALL # MONSTER # MONSTER # replicate 7 WALL) # replicate 8 borderRow"

definition treasureRaw :: RawDiagram where
  "treasureRaw =
     [replicate 8 EMPTY_SPACE,
      [EMPTY_SPACE, TREASURE, EMPTY_SPACE, WALL] @ replicate 4 EMPTY_SPACE,
      [EMPTY_SPACE, EMPTY_SPACE, EMPTY_SPACE, WALL] @ replicate 4 EMPTY_SPACE,
      [WALL, WALL, WALL] @ replicate 5 EMPTY_SPACE,
      replicate 8 EMPTY_SPACE, replicate 8 EMPTY_SPACE,
      replicate 8 EMPTY_SPACE, replicate 8 EMPTY_SPACE]"

definition treasureBoard :: Diagram where
  "treasureBoard =
     [borderRow,
      WALL # replicate 8 EMPTY_SPACE @ [WALL],
      [WALL, EMPTY_SPACE, TREASURE, EMPTY_SPACE, WALL] @ replicate 4 EMPTY_SPACE @ [WALL],
      [WALL, EMPTY_SPACE, EMPTY_SPACE, EMPTY_SPACE, WALL] @ replicate 4 EMPTY_SPACE @ [WALL],
      [WALL, WALL, WALL, WALL] @ replicate 5 EMPTY_SPACE @ [WALL],
      WALL # replicate 8 EMPTY_SPACE @ [WALL], WALL # replicate 8 EMPTY_SPACE @ [WALL],
      WALL # replicate 8 EMPTY_SPACE @ [WALL], WALL # replicate 8 EMPTY_SPACE @ [WALL],
      borderRow]"

definition closedRoomBoard :: Diagram where
  \<comment> \<open>treasureBoard with a wall on the room's last open perimeter tile (1, 4)\<close>
  "closedRoomBoard =
     treasureBoard[1 := [WALL, EMPTY_SPACE, EMPTY_SPACE, EMPTY_SPACE, WALL] @
                          replicate 4 EMPTY_SPACE @ [WALL]]"

definition treasurePuzzle :: puzzle where
  "treasurePuzzle =
     \<lparr>row_projection = [1, 0, 0, 0, 0, 0, 0, 0], column_projection = [0, 0, 0, 1, 0, 0, 0, 0],
      treasure_coords = [Coord 2 2], monster_coords = []\<rparr>"

definition treasureHandled :: dfs_state where
  "treasureHandled =
     (initialState treasureBoard)
       \<lparr>handled_treasure_ids := [202], treasure_room_lt_coords := [Coord 1 1]\<rparr>"

definition corridorRaw :: RawDiagram where
  "corridorRaw =
     [[MONSTER, EMPTY_SPACE] @ replicate 6 WALL,
      EMPTY_SPACE # replicate 7 WALL,
      MONSTER # replicate 7 WALL,
      replicate 8 WALL, replicate 8 WALL, replicate 8 WALL, replicate 8 WALL, replicate 8 WALL]"

definition corridorBoard :: Diagram where
  "corridorBoard =
     [borderRow,
      [WALL, MONSTER, EMPTY_SPACE] @ replicate 7 WALL,
      [WALL, EMPTY_SPACE] @ replicate 8 WALL,
      [WALL, MONSTER] @ replicate 8 WALL,
      borderRow, borderRow, borderRow, borderRow, borderRow, borderRow]"

definition corridorPuzzle :: puzzle where
  "corridorPuzzle =
     \<lparr>row_projection = [1, 0, 0, 0, 0, 0, 0, 0], column_projection = [0, 1, 0, 0, 0, 0, 0, 0],
      treasure_coords = [], monster_coords = [Coord 1 1, Coord 3 1]\<rparr>"

definition corridorSolved :: dfs_state where
  "corridorSolved =
     \<lparr>cur_row_projection = [1, 0, 0, 0, 0, 0, 0, 0],
      cur_column_projection = [0, 1, 0, 0, 0, 0, 0, 0],
      handled_treasure_ids = [], handled_monster_ids = [101],
      treasure_room_lt_coords = [],
      diagram = corridorBoard[1 := [WALL, MONSTER, WALL] @ replicate 7 WALL]\<rparr>"

section \<open>The hallway check\<close>

text \<open>
  The type \<open>Diagram\<close> of the source is a 10-tuple of 10-tuples.
\<close>

definition wellFormed :: "Diagram \<Rightarrow> bool" where
  "wellFormed d =
     (int (length d) = SIDE_LENGTH \<and> list_all (\<lambda>row. int (length row) = SIDE_LENGTH) d)"

text \<open>
  The test of \<open>checkHallways\<close> on one tile, as the code makes it: the read gives Empty
  and \<open>isContainedByTRoom\<close> is false. A 2 x 2 block is named by its corner with the
  smallest coordinates.
\<close>

definition isOpenAt :: "Diagram \<Rightarrow> Coordinate list \<Rightarrow> int \<Rightarrow> int \<Rightarrow> bool" where
  "isOpenAt d rooms x y =
     (readTile d x y = Some (Tile EMPTY_SPACE) \<and>
      \<not> isContainedByTRoom x y rooms)"

definition isOpenBlockAt :: "Diagram \<Rightarrow> Coordinate list \<Rightarrow> int \<Rightarrow> int \<Rightarrow> bool" where
  "isOpenBlockAt d rooms x y =
     (isOpenAt d rooms x y \<and> isOpenAt d rooms (x + 1) y \<and>
      isOpenAt d rooms x (y + 1) \<and> isOpenAt d rooms (x + 1) (y + 1))"

lemma readTile_wellFormed:
  assumes "wellFormed d" "0 \<le> x" "x \<le> 9"
  shows "readTile d x y = Some (if 0 \<le> y \<and> y \<le> 9 then Tile (d ! nat x ! nat y) else Undefined)"
proof -
  have lx: "inIndex x d" using assms by (simp add: wellFormed_def inIndex_def SIDE_LENGTH_def)
  have "nat x < length d" using assms by (simp add: wellFormed_def SIDE_LENGTH_def)
  then have "length (d ! nat x) = 10"
    using assms(1) by (simp add: wellFormed_def SIDE_LENGTH_def list_all_length)
  then show ?thesis using lx by (auto simp: readTile_def inIndex_def)
qed

lemma isOpenAt_range:
  assumes "wellFormed d" "isOpenAt d rooms x y"
  shows "0 \<le> x \<and> x \<le> 9 \<and> 0 \<le> y \<and> y \<le> 9"
proof -
  have r: "readTile d x y = Some (Tile EMPTY_SPACE)" using assms(2) by (simp add: isOpenAt_def)
  then have ix: "inIndex x d" by (auto simp: readTile_def split: if_splits)
  then have x: "0 \<le> x \<and> x \<le> 9"
    using assms(1) by (simp add: wellFormed_def inIndex_def SIDE_LENGTH_def)
  with r readTile_wellFormed[OF assms(1), of x y] show ?thesis by (auto split: if_splits)
qed

lemma isOpenTile_wellFormed:
  assumes "wellFormed d" "0 \<le> cx c" "cx c \<le> 9"
  shows "isOpenTile d rooms c = Some (isOpenAt d rooms (cx c) (cy c))"
  using readTile_wellFormed[OF assms, of "cy c"]
  by (auto simp: isOpenTile_def readCoord_def isOpenAt_def)

lemma spaceCount_wellFormed:
  assumes "wellFormed d" "0 \<le> cx a" "cx a \<le> 9" "0 \<le> cx b" "cx b \<le> 9" "0 \<le> cx c" "cx c \<le> 9"
  shows "\<exists>n. spaceCount d rooms [a, b, c] = Some n \<and>
     (n \<ge> 3 \<longleftrightarrow> isOpenAt d rooms (cx a) (cy a) \<and> isOpenAt d rooms (cx b) (cy b) \<and>
        isOpenAt d rooms (cx c) (cy c))"
  using isOpenTile_wellFormed[OF assms(1,2,3), of rooms]
    isOpenTile_wellFormed[OF assms(1,4,5), of rooms]
    isOpenTile_wellFormed[OF assms(1,6,7), of rooms]
  by (simp add: spaceCount_def)

lemma hasOpenSpace_wellFormed:
  assumes wf: "wellFormed d" and x: "1 \<le> x" "x \<le> 8"
  shows "hasOpenSpace d rooms x y = Some
    ((isOpenAt d rooms (x - 1) (y - 1) \<and> isOpenAt d rooms x (y - 1) \<and> isOpenAt d rooms (x - 1) y) \<or>
     (isOpenAt d rooms x (y - 1) \<and> isOpenAt d rooms (x + 1) (y - 1) \<and> isOpenAt d rooms (x + 1) y) \<or>
     (isOpenAt d rooms (x + 1) y \<and> isOpenAt d rooms (x + 1) (y + 1) \<and> isOpenAt d rooms x (y + 1)) \<or>
     (isOpenAt d rooms x (y + 1) \<and> isOpenAt d rooms (x - 1) (y + 1) \<and> isOpenAt d rooms (x - 1) y))"
proof -
  obtain n1 where n1: "spaceCount d rooms [Coord (x - 1) (y - 1), Coord x (y - 1), Coord (x - 1) y] = Some n1"
    "n1 \<ge> 3 \<longleftrightarrow> isOpenAt d rooms (x - 1) (y - 1) \<and> isOpenAt d rooms x (y - 1) \<and> isOpenAt d rooms (x - 1) y"
    using spaceCount_wellFormed[OF wf, of "Coord (x - 1) (y - 1)" "Coord x (y - 1)" "Coord (x - 1) y" rooms] x
    by auto
  obtain n2 where n2: "spaceCount d rooms [Coord x (y - 1), Coord (x + 1) (y - 1), Coord (x + 1) y] = Some n2"
    "n2 \<ge> 3 \<longleftrightarrow> isOpenAt d rooms x (y - 1) \<and> isOpenAt d rooms (x + 1) (y - 1) \<and> isOpenAt d rooms (x + 1) y"
    using spaceCount_wellFormed[OF wf, of "Coord x (y - 1)" "Coord (x + 1) (y - 1)" "Coord (x + 1) y" rooms] x
    by auto
  obtain n3 where n3: "spaceCount d rooms [Coord (x + 1) y, Coord (x + 1) (y + 1), Coord x (y + 1)] = Some n3"
    "n3 \<ge> 3 \<longleftrightarrow> isOpenAt d rooms (x + 1) y \<and> isOpenAt d rooms (x + 1) (y + 1) \<and> isOpenAt d rooms x (y + 1)"
    using spaceCount_wellFormed[OF wf, of "Coord (x + 1) y" "Coord (x + 1) (y + 1)" "Coord x (y + 1)" rooms] x
    by auto
  obtain n4 where n4: "spaceCount d rooms [Coord x (y + 1), Coord (x - 1) (y + 1), Coord (x - 1) y] = Some n4"
    "n4 \<ge> 3 \<longleftrightarrow> isOpenAt d rooms x (y + 1) \<and> isOpenAt d rooms (x - 1) (y + 1) \<and> isOpenAt d rooms (x - 1) y"
    using spaceCount_wellFormed[OF wf, of "Coord x (y + 1)" "Coord (x - 1) (y + 1)" "Coord (x - 1) y" rooms] x
    by auto
  have "hasOpenSpace d rooms x y = Some (n1 \<ge> 3 \<or> n2 \<ge> 3 \<or> n3 \<ge> 3 \<or> n4 \<ge> 3)"
    using n1(1) n2(1) n3(1) n4(1) by (simp add: hasOpenSpace_def get4TilesSpaces_def)
  then show ?thesis using n1(2) n2(2) n3(2) n4(2) by simp
qed

definition cornerOpen :: "Diagram \<Rightarrow> Coordinate list \<Rightarrow> int \<Rightarrow> int \<Rightarrow> bool" where
  "cornerOpen d rooms x y =
    ((isOpenAt d rooms (x - 1) (y - 1) \<and> isOpenAt d rooms x (y - 1) \<and> isOpenAt d rooms (x - 1) y) \<or>
     (isOpenAt d rooms x (y - 1) \<and> isOpenAt d rooms (x + 1) (y - 1) \<and> isOpenAt d rooms (x + 1) y) \<or>
     (isOpenAt d rooms (x + 1) y \<and> isOpenAt d rooms (x + 1) (y + 1) \<and> isOpenAt d rooms x (y + 1)) \<or>
     (isOpenAt d rooms x (y + 1) \<and> isOpenAt d rooms (x - 1) (y + 1) \<and> isOpenAt d rooms (x - 1) y))"

lemma hallwayScan_wellFormed:
  assumes wf: "wellFormed d"
  shows "list_all (\<lambda>c. 1 \<le> cx c \<and> cx c \<le> 8) cs \<Longrightarrow>
    hallwayScan d rooms cs =
      Some (\<not> list_ex (\<lambda>c. isOpenAt d rooms (cx c) (cy c) \<and> cornerOpen d rooms (cx c) (cy c)) cs)"
proof (induction cs)
  case Nil
  then show ?case by simp
next
  case (Cons c cs)
  have c: "1 \<le> cx c" "cx c \<le> 8" using Cons.prems by auto
  have o: "isOpenTile d rooms c = Some (isOpenAt d rooms (cx c) (cy c))"
    using isOpenTile_wellFormed[OF wf, of c rooms] c by simp
  have h: "hasOpenSpace d rooms (cx c) (cy c) = Some (cornerOpen d rooms (cx c) (cy c))"
    using hasOpenSpace_wellFormed[OF wf c] by (simp add: cornerOpen_def)
  show ?case using Cons o h by simp
qed

lemma interiorCoords_set:
  "set interiorCoords = {c. 1 \<le> cx c \<and> cx c \<le> 8 \<and> 1 \<le> cy c \<and> cy c \<le> 8}"
proof -
  have "set interiorCoords = (\<Union>x\<in>{1..8}. Coord x ` {1..8})"
    by (simp add: interiorCoords_def SIDE_LENGTH_def)
  also have "\<dots> = {c. 1 \<le> cx c \<and> cx c \<le> 8 \<and> 1 \<le> cy c \<and> cy c \<le> 8}"
  proof (rule set_eqI, rule iffI)
    fix c assume "c \<in> (\<Union>x\<in>{1..8}. Coord x ` {1..8})"
    then show "c \<in> {c. 1 \<le> cx c \<and> cx c \<le> 8 \<and> 1 \<le> cy c \<and> cy c \<le> 8}" by auto
  next
    fix c assume a: "c \<in> {c. 1 \<le> cx c \<and> cx c \<le> 8 \<and> 1 \<le> cy c \<and> cy c \<le> 8}"
    have "c = Coord (cx c) (cy c)" by simp
    then show "c \<in> (\<Union>x\<in>{1..8}. Coord x ` {1..8})" using a by (metis (mono_tags, lifting) UN_iff atLeastAtMost_iff image_eqI mem_Collect_eq)
  qed
  finally show ?thesis .
qed

lemma block_iff_interior:
  assumes wf: "wellFormed d"
  shows "(\<exists>x y. isOpenBlockAt d rooms x y) \<longleftrightarrow>
    (\<exists>x y. 1 \<le> x \<and> x \<le> 8 \<and> 1 \<le> y \<and> y \<le> 8 \<and> isOpenAt d rooms x y \<and> cornerOpen d rooms x y)"
proof
  assume "\<exists>x y. isOpenBlockAt d rooms x y"
  then obtain i j where b: "isOpenAt d rooms i j" "isOpenAt d rooms (i + 1) j"
    "isOpenAt d rooms i (j + 1)" "isOpenAt d rooms (i + 1) (j + 1)"
    by (auto simp: isOpenBlockAt_def)
  have r: "0 \<le> i" "i \<le> 8" "0 \<le> j" "j \<le> 8"
    using isOpenAt_range[OF wf b(1)] isOpenAt_range[OF wf b(4)] by auto
  define x where "x = (if i = 0 then 1 else i)"
  define y where "y = (if j = 0 then 1 else j)"
  have xr: "1 \<le> x \<and> x \<le> 8 \<and> 1 \<le> y \<and> y \<le> 8" using r by (auto simp: x_def y_def)
  consider "i = 0" "j = 0" | "i = 0" "j \<noteq> 0" | "i \<noteq> 0" "j = 0" | "i \<noteq> 0" "j \<noteq> 0" by blast
  then have "isOpenAt d rooms x y \<and> cornerOpen d rooms x y"
  proof cases
    case 1
    then show ?thesis using b by (simp add: x_def y_def cornerOpen_def)
  next
    case 2
    then show ?thesis using b by (simp add: x_def y_def cornerOpen_def)
  next
    case 3
    then show ?thesis using b by (simp add: x_def y_def cornerOpen_def)
  next
    case 4
    then show ?thesis using b by (simp add: x_def y_def cornerOpen_def)
  qed
  then show "\<exists>x y. 1 \<le> x \<and> x \<le> 8 \<and> 1 \<le> y \<and> y \<le> 8 \<and> isOpenAt d rooms x y \<and> cornerOpen d rooms x y"
    using xr by blast
next
  assume "\<exists>x y. 1 \<le> x \<and> x \<le> 8 \<and> 1 \<le> y \<and> y \<le> 8 \<and> isOpenAt d rooms x y \<and> cornerOpen d rooms x y"
  then obtain x y where o: "isOpenAt d rooms x y" and c: "cornerOpen d rooms x y" by blast
  from c consider
      "isOpenAt d rooms (x - 1) (y - 1)" "isOpenAt d rooms x (y - 1)" "isOpenAt d rooms (x - 1) y"
    | "isOpenAt d rooms x (y - 1)" "isOpenAt d rooms (x + 1) (y - 1)" "isOpenAt d rooms (x + 1) y"
    | "isOpenAt d rooms (x + 1) y" "isOpenAt d rooms (x + 1) (y + 1)" "isOpenAt d rooms x (y + 1)"
    | "isOpenAt d rooms x (y + 1)" "isOpenAt d rooms (x - 1) (y + 1)" "isOpenAt d rooms (x - 1) y"
    unfolding cornerOpen_def by blast
  then show "\<exists>x y. isOpenBlockAt d rooms x y"
  proof cases
    case 1
    then have "isOpenBlockAt d rooms (x - 1) (y - 1)" using o by (simp add: isOpenBlockAt_def)
    then show ?thesis by blast
  next
    case 2
    then have "isOpenBlockAt d rooms x (y - 1)" using o by (simp add: isOpenBlockAt_def)
    then show ?thesis by blast
  next
    case 3
    then have "isOpenBlockAt d rooms x y" using o by (simp add: isOpenBlockAt_def)
    then show ?thesis by blast
  next
    case 4
    then have "isOpenBlockAt d rooms (x - 1) y" using o by (simp add: isOpenBlockAt_def)
    then show ?thesis by blast
  qed
qed

lemma checkHallways_value:
  assumes wf: "wellFormed d"
  shows "checkHallways d rooms = Some (\<not> (\<exists>x y. isOpenBlockAt d rooms x y))"
proof -
  have all: "list_all (\<lambda>c. 1 \<le> cx c \<and> cx c \<le> 8) interiorCoords"
    by (simp add: list_all_iff interiorCoords_set)
  have "list_ex (\<lambda>c. isOpenAt d rooms (cx c) (cy c) \<and> cornerOpen d rooms (cx c) (cy c)) interiorCoords
     \<longleftrightarrow> (\<exists>x y. 1 \<le> x \<and> x \<le> 8 \<and> 1 \<le> y \<and> y \<le> 8 \<and> isOpenAt d rooms x y \<and> cornerOpen d rooms x y)"
    unfolding list_ex_iff interiorCoords_set
    by (metis (mono_tags, lifting) Coordinate.sel mem_Collect_eq)
  then show ?thesis
    using hallwayScan_wellFormed[OF wf all, of rooms] block_iff_interior[OF wf, of rooms]
    by (simp add: checkHallways_def)
qed

text \<open>
  The claim in its own words. The tile at row \<open>x\<close> and column \<open>y\<close> of a 10 x 10 board; a
  tile lies inside the 3 x 3 room with top-left corner \<open>(a, b)\<close> when its row is one of
  \<open>a, a + 1, a + 2\<close> and its column one of \<open>b, b + 1, b + 2\<close>; a tile is open when it is
  Empty and lies inside no committed room; a 2 x 2 block is open when its four tiles are.
\<close>

definition boardTile :: "Diagram \<Rightarrow> int \<Rightarrow> int \<Rightarrow> TileType option" where
  "boardTile d x y =
     (if 0 \<le> x \<and> x \<le> 9 \<and> 0 \<le> y \<and> y \<le> 9 then Some (d ! nat x ! nat y) else None)"

definition insideRoom :: "Coordinate \<Rightarrow> int \<Rightarrow> int \<Rightarrow> bool" where
  "insideRoom lt_coord x y =
     (cx lt_coord \<le> x \<and> x \<le> cx lt_coord + 2 \<and> cy lt_coord \<le> y \<and> y \<le> cy lt_coord + 2)"

definition openAt :: "Diagram \<Rightarrow> Coordinate list \<Rightarrow> int \<Rightarrow> int \<Rightarrow> bool" where
  "openAt d rooms x y =
     (boardTile d x y = Some EMPTY_SPACE \<and> \<not> (\<exists>lt_coord \<in> set rooms. insideRoom lt_coord x y))"

definition openBlockAt :: "Diagram \<Rightarrow> Coordinate list \<Rightarrow> int \<Rightarrow> int \<Rightarrow> bool" where
  "openBlockAt d rooms x y =
     (openAt d rooms x y \<and> openAt d rooms (x + 1) y \<and>
      openAt d rooms x (y + 1) \<and> openAt d rooms (x + 1) (y + 1))"

definition roomOnlyBoard :: Diagram where
  \<comment> \<open>walls everywhere but for one treasure room with corner (1, 1)\<close>
  "roomOnlyBoard =
     [borderRow,
      [WALL, TREASURE, EMPTY_SPACE, EMPTY_SPACE] @ replicate 6 WALL,
      [WALL, EMPTY_SPACE, EMPTY_SPACE, EMPTY_SPACE] @ replicate 6 WALL,
      [WALL, EMPTY_SPACE, EMPTY_SPACE, EMPTY_SPACE] @ replicate 6 WALL,
      borderRow, borderRow, borderRow, borderRow, borderRow, borderRow]"

lemma isContainedByTRoom_iff:
  "isContainedByTRoom x y rooms \<longleftrightarrow> (\<exists>lt_coord \<in> set rooms. insideRoom lt_coord x y)"
  by (induction rooms) (auto simp: insideRoom_def)

lemma readTile_boardTile:
  assumes "wellFormed d"
  shows "readTile d x y = Some (Tile t) \<longleftrightarrow> boardTile d x y = Some t"
proof (cases "0 \<le> x \<and> x \<le> 9")
  case True
  then show ?thesis
    using readTile_wellFormed[OF assms, of x y] by (auto simp: boardTile_def)
next
  case False
  then have "\<not> inIndex x d"
    using assms by (auto simp: wellFormed_def inIndex_def SIDE_LENGTH_def)
  then show ?thesis using False by (auto simp: readTile_def boardTile_def)
qed

lemma isOpenAt_iff:
  assumes "wellFormed d"
  shows "isOpenAt d rooms x y \<longleftrightarrow> openAt d rooms x y"
  using readTile_boardTile[OF assms, of x y EMPTY_SPACE]
  by (simp add: isOpenAt_def openAt_def isContainedByTRoom_iff)

lemma isOpenBlockAt_iff:
  assumes "wellFormed d"
  shows "isOpenBlockAt d rooms x y \<longleftrightarrow> openBlockAt d rooms x y"
  by (simp add: isOpenBlockAt_def openBlockAt_def isOpenAt_iff[OF assms])

text \<open>
  Claim C8. On a 10 x 10 board and for every list of room corners, \<open>checkHallways\<close>
  returns false exactly when four tiles forming a 2 x 2 block are all Empty and outside
  every committed 3 x 3 treasure room, and returns true exactly when there is no such
  block.
\<close>

theorem checkHallways_iff:
  assumes "wellFormed d"
  shows "(checkHallways d rooms = Some False \<longleftrightarrow>
            (\<exists>x y. openBlockAt d rooms x y)) \<and>
         (checkHallways d rooms = Some True \<longleftrightarrow>
            \<not> (\<exists>x y. openBlockAt d rooms x y))"
  using checkHallways_value[OF assms, of rooms] by (auto simp: isOpenBlockAt_iff[OF assms])

theorem checkHallways_iff_witness:
  "wellFormed roomOnlyBoard \<and>
   openBlockAt roomOnlyBoard [] 1 2 \<and> checkHallways roomOnlyBoard [] = Some False \<and>
   \<not> openBlockAt roomOnlyBoard [Coord 1 1] 1 2 \<and>
   checkHallways roomOnlyBoard [Coord 1 1] = Some True \<and>
   openBlockAt roomOnlyBoard [Coord 3 3] 1 2 \<and>
   checkHallways roomOnlyBoard [Coord 3 3] = Some False"
proof -
  have wf: "wellFormed roomOnlyBoard" by code_simp
  have block: "openBlockAt roomOnlyBoard [] 1 2" by code_simp
  have no_room: "checkHallways roomOnlyBoard [] = Some False"
    using checkHallways_iff[OF wf, of "[]"] block by blast
  have room: "checkHallways roomOnlyBoard [Coord 1 1] = Some True" by code_simp
  have closed: "\<not> openBlockAt roomOnlyBoard [Coord 1 1] 1 2"
    using checkHallways_iff[OF wf, of "[Coord 1 1]"] room by blast
  have block2: "openBlockAt roomOnlyBoard [Coord 3 3] 1 2" by code_simp
  have other_room: "checkHallways roomOnlyBoard [Coord 3 3] = Some False"
    using checkHallways_iff[OF wf, of "[Coord 3 3]"] block2 by blast
  show ?thesis using wf block no_room room closed block2 other_room by simp
qed

section \<open>Final validation of monsters\<close>

text \<open>
  What \<open>isSolved\<close> does ask of a monster: exactly three Wall tiles among its four
  cardinal neighbours.
\<close>

lemma monstersAreDeadEnds_true:
  "monstersAreDeadEnds mcs d = Some True \<Longrightarrow> m \<in> set mcs \<Longrightarrow>
   isDeadEnds (cx m) (cy m) d = Some True"
  by (induction mcs) (auto split: option.splits if_splits)

lemma isSolved_monsters_three_walls:
  assumes "isSolved treasures monsters d = Some True" "m \<in> set monsters"
  shows "\<exists>tiles. readTiles d (get4DirectionCoords (cx m) (cy m)) = Some tiles \<and>
           count_list tiles (Tile WALL) = 3"
proof -
  have "checkMonstersAndDeadEnds monsters d = Some True"
    using assms(1) by (auto simp: isSolved_def split: option.splits if_splits)
  then have "monstersAreDeadEnds monsters d = Some True"
    by (auto simp: checkMonstersAndDeadEnds_def split: option.splits if_splits)
  then have "isDeadEnds (cx m) (cy m) d = Some True"
    using assms(2) by (rule monstersAreDeadEnds_true)
  then show ?thesis by (auto simp: isDeadEnds_def)
qed

text \<open>
  Claim C7 fails on the code: \<open>isSolved\<close> only counts the walls around a monster. On
  \<open>twoMonstersBoard\<close> the monster at (1, 1) has three Wall neighbours and its fourth
  neighbour (1, 2) is a Monster; \<open>isSolved\<close> accepts the board and the search returns
  true.
\<close>

theorem isSolved_accepts_adjacent_monsters:
  "augmentRawDiagram twoMonstersRaw = Some twoMonstersBoard \<and>
   getTreasureAndMonsterCoords twoMonstersBoard = Some ([], [Coord 1 1, Coord 1 2]) \<and>
   readTiles twoMonstersBoard (get4DirectionCoords 1 1) =
     Some [Tile WALL, Tile WALL, Tile MONSTER, Tile WALL] \<and>
   isSolved [] [Coord 1 1, Coord 1 2] twoMonstersBoard = Some True \<and>
   solve 1 noWalls noWalls twoMonstersRaw = Returned True (initialState twoMonstersBoard)"
  by code_simp

section \<open>Undoing tentative placements\<close>

text \<open>
  Two boards are equal when every read gives the same result, and the same holds for
  the counter arrays; the effect of the search's assignments is described read by
  read.
\<close>

lemma readTile_eqI:
  assumes "\<And>x y. readTile d x y = readTile d' x y"
  shows "d = d'"
proof -
  have len: "length d = length d'"
  proof (rule ccontr)
    assume ne: "length d \<noteq> length d'"
    then consider "length d < length d'" | "length d' < length d" by linarith
    then show False
    proof cases
      case 1
      have "readTile d (int (length d)) 0 = None" by (simp add: readTile_def inIndex_def)
      moreover have "readTile d' (int (length d)) 0 \<noteq> None"
        using 1 by (simp add: readTile_def inIndex_def)
      ultimately show False using assms by metis
    next
      case 2
      have "readTile d' (int (length d')) 0 = None" by (simp add: readTile_def inIndex_def)
      moreover have "readTile d (int (length d')) 0 \<noteq> None"
        using 2 by (simp add: readTile_def inIndex_def)
      ultimately show False using assms by metis
    qed
  qed
  show ?thesis
  proof (rule nth_equalityI[OF len])
    fix i assume i: "i < length d"
    then have i': "i < length d'" using len by simp
    have rd: "\<And>y. readTile d (int i) y =
        (if inIndex y (d ! i) then Some (Tile (d ! i ! nat y)) else Some Undefined)"
      using i by (simp add: readTile_def inIndex_def)
    have rd': "\<And>y. readTile d' (int i) y =
        (if inIndex y (d' ! i) then Some (Tile (d' ! i ! nat y)) else Some Undefined)"
      using i' by (simp add: readTile_def inIndex_def)
    have eq: "\<And>y. (if inIndex y (d ! i) then Some (Tile (d ! i ! nat y)) else Some Undefined) =
        (if inIndex y (d' ! i) then Some (Tile (d' ! i ! nat y)) else Some Undefined)"
      using assms[of "int i"] rd rd' by simp
    have rl: "length (d ! i) = length (d' ! i)"
    proof (rule ccontr)
      assume ne: "length (d ! i) \<noteq> length (d' ! i)"
      then consider "length (d ! i) < length (d' ! i)" | "length (d' ! i) < length (d ! i)"
        by linarith
      then show False
      proof cases
        case 1
        then show False using eq[of "int (length (d ! i))"] by (simp add: inIndex_def)
      next
        case 2
        then show False using eq[of "int (length (d' ! i))"] by (simp add: inIndex_def)
      qed
    qed
    show "d ! i = d' ! i"
    proof (rule nth_equalityI[OF rl])
      fix j assume "j < length (d ! i)"
      then show "d ! i ! j = d' ! i ! j"
        using eq[of "int j"] rl by (simp add: inIndex_def)
    qed
  qed
qed

lemma readIndex_eqI:
  assumes "\<And>i. readIndex xs i = readIndex ys i"
  shows "xs = ys"
proof -
  have len: "length xs = length ys"
  proof (rule ccontr)
    assume ne: "length xs \<noteq> length ys"
    then consider "length xs < length ys" | "length ys < length xs" by linarith
    then show False
    proof cases
      case 1
      then show False using assms[of "int (length xs)"] by (simp add: readIndex_def inIndex_def)
    next
      case 2
      then show False using assms[of "int (length ys)"] by (simp add: readIndex_def inIndex_def)
    qed
  qed
  show ?thesis
  proof (rule nth_equalityI[OF len])
    fix i assume "i < length xs"
    then show "xs ! i = ys ! i"
      using assms[of "int i"] len by (simp add: readIndex_def inIndex_def)
  qed
qed

lemma readTile_setTile:
  assumes "setTile d x y t = Some d'"
  shows "readTile d' x' y' = (if x' = x \<and> y' = y then Some (Tile t) else readTile d x' y')"
proof -
  have r: "inIndex x d" "inIndex y (d ! nat x)"
    and d': "d' = d[nat x := (d ! nat x)[nat y := t]]"
    using assms by (auto simp: setTile_def split: if_splits)
  show ?thesis
  proof (cases "x' = x")
    case True
    then show ?thesis using r d'
      by (auto simp: readTile_def inIndex_def nth_list_update)
  next
    case False
    then have "inIndex x' d \<Longrightarrow> nat x' \<noteq> nat x" using r(1) by (auto simp: inIndex_def)
    then show ?thesis using False r d'
      by (auto simp: readTile_def inIndex_def nth_list_update)
  qed
qed

lemma readIndex_addAt:
  assumes "addAt xs i k = Some xs'"
  shows "readIndex xs' j = map_option (\<lambda>v. v + (if j = i then k else 0)) (readIndex xs j)"
proof -
  have r: "inIndex i xs" and xs': "xs' = xs[nat i := xs ! nat i + k]"
    using assms by (auto simp: addAt_def split: if_splits)
  show ?thesis
  proof (cases "j = i")
    case True
    then show ?thesis using r xs' by (auto simp: readIndex_def inIndex_def)
  next
    case False
    then have "inIndex j xs \<Longrightarrow> nat j \<noteq> nat i" using r by (auto simp: inIndex_def)
    then show ?thesis using False r xs' by (auto simp: readIndex_def inIndex_def)
  qed
qed


definition rowHits :: "Coordinate list \<Rightarrow> int \<Rightarrow> int" where
  "rowHits cs i = int (length (filter (\<lambda>c. cx c - 1 = i) cs))"

definition columnHits :: "Coordinate list \<Rightarrow> int \<Rightarrow> int" where
  "columnHits cs i = int (length (filter (\<lambda>c. cy c - 1 = i) cs))"

lemma putTile_reads:
  assumes "putTile t k c s = Some s1"
  shows "readTile (diagram s1) x y =
           (if Coord x y = c then Some (Tile t) else readTile (diagram s) x y)"
    and "readIndex (cur_row_projection s1) i =
           map_option (\<lambda>v. v + (if i = cx c - 1 then k else 0)) (readIndex (cur_row_projection s) i)"
    and "readIndex (cur_column_projection s1) i =
           map_option (\<lambda>v. v + (if i = cy c - 1 then k else 0))
             (readIndex (cur_column_projection s) i)"
    and "handled_treasure_ids s1 = handled_treasure_ids s"
    and "handled_monster_ids s1 = handled_monster_ids s"
    and "treasure_room_lt_coords s1 = treasure_room_lt_coords s"
proof -
  obtain d' rows' columns' where
    d': "setTile (diagram s) (cx c) (cy c) t = Some d'" and
    r': "addAt (cur_row_projection s) (cx c - 1) k = Some rows'" and
    c': "addAt (cur_column_projection s) (cy c - 1) k = Some columns'" and
    s1: "s1 = s\<lparr>diagram := d', cur_row_projection := rows', cur_column_projection := columns'\<rparr>"
    using assms by (auto simp: putTile_def split: option.splits)
  have "Coord x y = c \<longleftrightarrow> x = cx c \<and> y = cy c" by (cases c) auto
  then show "readTile (diagram s1) x y =
           (if Coord x y = c then Some (Tile t) else readTile (diagram s) x y)"
    using readTile_setTile[OF d', of x y] s1 by simp
  show "readIndex (cur_row_projection s1) i =
           map_option (\<lambda>v. v + (if i = cx c - 1 then k else 0)) (readIndex (cur_row_projection s) i)"
    using readIndex_addAt[OF r', of i] s1 by simp
  show "readIndex (cur_column_projection s1) i =
           map_option (\<lambda>v. v + (if i = cy c - 1 then k else 0))
             (readIndex (cur_column_projection s) i)"
    using readIndex_addAt[OF c', of i] s1 by simp
  show "handled_treasure_ids s1 = handled_treasure_ids s"
    "handled_monster_ids s1 = handled_monster_ids s"
    "treasure_room_lt_coords s1 = treasure_room_lt_coords s"
    using s1 by simp_all
qed

lemma putTiles_reads:
  assumes "putTiles t k coords idxs s = Some s1"
  shows "readTile (diagram s1) x y =
           (if Coord x y \<in> set (map ((!) coords) idxs) then Some (Tile t)
            else readTile (diagram s) x y)"
    and "readIndex (cur_row_projection s1) i =
           map_option (\<lambda>v. v + k * rowHits (map ((!) coords) idxs) i)
             (readIndex (cur_row_projection s) i)"
    and "readIndex (cur_column_projection s1) i =
           map_option (\<lambda>v. v + k * columnHits (map ((!) coords) idxs) i)
             (readIndex (cur_column_projection s) i)"
    and "handled_treasure_ids s1 = handled_treasure_ids s"
    and "handled_monster_ids s1 = handled_monster_ids s"
    and "treasure_room_lt_coords s1 = treasure_room_lt_coords s"
  using assms
proof (induction idxs arbitrary: s)
  case Nil
  {
    case 1 then show ?case by simp
  next
    case 2 then show ?case by (simp add: rowHits_def option.map_ident)
  next
    case 3 then show ?case by (simp add: columnHits_def option.map_ident)
  next
    case 4 then show ?case by simp
  next
    case 5 then show ?case by simp
  next
    case 6 then show ?case by simp
  }
next
  case (Cons j idxs)
  {
    case 1
    then obtain s' where a: "putTile t k (coords ! j) s = Some s'"
      and b: "putTiles t k coords idxs s' = Some s1"
      by (auto split: if_splits option.splits)
    show ?case using Cons.IH(1)[OF b] putTile_reads(1)[OF a, of x y] by auto
  next
    case 2
    then obtain s' where a: "putTile t k (coords ! j) s = Some s'"
      and b: "putTiles t k coords idxs s' = Some s1"
      by (auto split: if_splits option.splits)
    show ?case using Cons.IH(2)[OF b] putTile_reads(2)[OF a, of i]
      by (cases "readIndex (cur_row_projection s) i")
         (auto simp: rowHits_def algebra_simps)
  next
    case 3
    then obtain s' where a: "putTile t k (coords ! j) s = Some s'"
      and b: "putTiles t k coords idxs s' = Some s1"
      by (auto split: if_splits option.splits)
    show ?case using Cons.IH(3)[OF b] putTile_reads(3)[OF a, of i]
      by (cases "readIndex (cur_column_projection s) i")
         (auto simp: columnHits_def algebra_simps)
  next
    case 4
    then obtain s' where a: "putTile t k (coords ! j) s = Some s'"
      and b: "putTiles t k coords idxs s' = Some s1"
      by (auto split: if_splits option.splits)
    show ?case using Cons.IH(4)[OF b] putTile_reads(4)[OF a] by simp
  next
    case 5
    then obtain s' where a: "putTile t k (coords ! j) s = Some s'"
      and b: "putTiles t k coords idxs s' = Some s1"
      by (auto split: if_splits option.splits)
    show ?case using Cons.IH(5)[OF b] putTile_reads(5)[OF a] by simp
  next
    case 6
    then obtain s' where a: "putTile t k (coords ! j) s = Some s'"
      and b: "putTiles t k coords idxs s' = Some s1"
      by (auto split: if_splits option.splits)
    show ?case using Cons.IH(6)[OF b] putTile_reads(6)[OF a] by simp
  }
qed

lemma putTiles_undo:
  assumes place: "putTiles WALL 1 coords idxs s = Some s1"
    and undo: "putTiles EMPTY_SPACE (- 1) coords idxs s1 = Some s2"
    and empty: "\<And>j. j \<in> set idxs \<Longrightarrow> readCoord (diagram s) (coords ! j) = Some (Tile EMPTY_SPACE)"
  shows "s2 = s"
proof (rule dfs_state.equality)
  show "diagram s2 = diagram s"
  proof (rule readTile_eqI)
    fix x y
    show "readTile (diagram s2) x y = readTile (diagram s) x y"
    proof (cases "Coord x y \<in> set (map ((!) coords) idxs)")
      case True
      then obtain j where "j \<in> set idxs" "coords ! j = Coord x y" by auto
      then have "readTile (diagram s) x y = Some (Tile EMPTY_SPACE)"
        using empty[of j] by (simp add: readCoord_def)
      then show ?thesis using putTiles_reads(1)[OF undo, of x y] True by simp
    next
      case False
      then show ?thesis
        using putTiles_reads(1)[OF undo, of x y] putTiles_reads(1)[OF place, of x y] by simp
    qed
  qed
  show "cur_row_projection s2 = cur_row_projection s"
  proof (rule readIndex_eqI)
    fix i
    show "readIndex (cur_row_projection s2) i = readIndex (cur_row_projection s) i"
      using putTiles_reads(2)[OF undo, of i] putTiles_reads(2)[OF place, of i]
      by (cases "readIndex (cur_row_projection s) i") auto
  qed
  show "cur_column_projection s2 = cur_column_projection s"
  proof (rule readIndex_eqI)
    fix i
    show "readIndex (cur_column_projection s2) i = readIndex (cur_column_projection s) i"
      using putTiles_reads(3)[OF undo, of i] putTiles_reads(3)[OF place, of i]
      by (cases "readIndex (cur_column_projection s) i") auto
  qed
  show "handled_treasure_ids s2 = handled_treasure_ids s"
    using putTiles_reads(4)[OF undo] putTiles_reads(4)[OF place] by simp
  show "handled_monster_ids s2 = handled_monster_ids s"
    using putTiles_reads(5)[OF undo] putTiles_reads(5)[OF place] by simp
  show "treasure_room_lt_coords s2 = treasure_room_lt_coords s"
    using putTiles_reads(6)[OF undo] putTiles_reads(6)[OF place] by simp
  show "dfs_state.more s2 = dfs_state.more s" by simp
qed

lemma putTile_undo:
  assumes place: "putTile WALL 1 c s = Some s1"
    and undo: "putTile EMPTY_SPACE (- 1) c s1 = Some s2"
    and empty: "readCoord (diagram s) c = Some (Tile EMPTY_SPACE)"
  shows "s2 = s"
proof -
  have a: "putTiles WALL 1 [c] [0] s = Some s1" using place by simp
  have b: "putTiles EMPTY_SPACE (- 1) [c] [0] s1 = Some s2" using undo by simp
  show ?thesis by (rule putTiles_undo[OF a b]) (simp add: empty)
qed

lemma placeAllButOne_putTiles:
  assumes "\<And>j c. (j, c) \<in> set rest \<Longrightarrow> j < length es \<and> es ! j = c"
    and "placeAllButOne p i rest s placed0 = Some (s1, placed)"
  shows "\<exists>new. placed = placed0 @ new \<and> putTiles WALL 1 es new s = Some s1 \<and>
           set new \<subseteq> fst ` set rest"
  using assms
proof (induction rest arbitrary: s placed0)
  case Nil
  then show ?case by simp
next
  case (Cons jc rest)
  obtain j c where jc: "jc = (j, c)" by (cases jc)
  have in_es: "j < length es" "es ! j = c" using Cons.prems(1)[of j c] jc by auto
  have rest_ok: "\<And>j c. (j, c) \<in> set rest \<Longrightarrow> j < length es \<and> es ! j = c"
    using Cons.prems(1) by auto
  show ?case
  proof (cases "j \<noteq> i \<and> isTilePlacable (cx c - 1) (cy c - 1)
                   (cur_row_projection s) (cur_column_projection s)
                   (row_projection p) (column_projection p)")
    case True
    then obtain s' where a: "putTile WALL 1 c s = Some s'"
      and b: "placeAllButOne p i rest s' (placed0 @ [j]) = Some (s1, placed)"
      using Cons.prems(2) jc by (auto split: option.splits)
    from Cons.IH[OF rest_ok b] obtain new where
      n: "placed = (placed0 @ [j]) @ new" "putTiles WALL 1 es new s' = Some s1"
         "set new \<subseteq> fst ` set rest"
      by blast
    have "putTiles WALL 1 es (j # new) s = Some s1" using a n(2) in_es by simp
    moreover have "placed = placed0 @ (j # new)" using n(1) by simp
    moreover have "set (j # new) \<subseteq> fst ` set (jc # rest)" using n(3) jc by auto
    ultimately show ?thesis by blast
  next
    case False
    show ?thesis
    proof (cases "j = i")
      case True
      then have b: "placeAllButOne p i rest s placed0 = Some (s1, placed)"
        using Cons.prems(2) jc by simp
      from Cons.IH[OF rest_ok b] show ?thesis by auto
    next
      case F2: False
      then have "s1 = s" "placed = placed0" using Cons.prems(2) jc False by auto
      then show ?thesis by simp
    qed
  qed
qed

text \<open>
  A function for the recursive calls restores when a call that returns false leaves the
  state it was given. Every loop of \<open>dfs\<close> then keeps the state: it either ends in the
  state it started in, or leaves \<open>dfs\<close> without returning false in another state.
\<close>

definition restores :: "(dfs_state \<Rightarrow> dfs_result) \<Rightarrow> bool" where
  "restores recurse = (\<forall>s s'. recurse s = Returned False s' \<longrightarrow> s' = s)"

definition kept :: "('a \<Rightarrow> dfs_state) \<Rightarrow> dfs_state \<Rightarrow> 'a flow \<Rightarrow> bool" where
  "kept proj s f =
     (case f of
        Exit r \<Rightarrow> (case r of Returned found s' \<Rightarrow> found \<or> s' = s | _ \<Rightarrow> True)
      | Next v \<Rightarrow> proj v = s)"

lemma kept_simps [simp]:
  "kept proj s (Exit OutOfFuel)" "kept proj s (Exit Raised)"
  "kept proj s (Exit (Returned found s')) \<longleftrightarrow> found \<or> s' = s"
  "kept proj s (Next v) \<longleftrightarrow> proj v = s"
  by (simp_all add: kept_def)

lemma kept_Exit: "kept proj s (Exit r) \<Longrightarrow> kept proj' s (Exit r)"
  by (simp add: kept_def)

lemma popHandled_pushHandled [simp]: "popHandled h (pushHandled h s) = s"
  by (cases h) simp_all

lemma those_map_zip:
  "those (map f cs) = Some vs \<Longrightarrow> (c, v) \<in> set (zip cs vs) \<Longrightarrow> f c = Some v"
proof (induction cs arbitrary: vs)
  case Nil
  then show ?case by simp
next
  case (Cons a cs)
  then obtain w ws where w: "f a = Some w" "those (map f cs) = Some ws" "vs = w # ws"
    by (auto split: option.splits)
  then show ?case using Cons by auto
qed

lemma coordsOf_read:
  assumes "readTiles d cs = Some tiles" "c \<in> set (coordsOf t cs tiles)"
  shows "readCoord d c = Some (Tile t)"
proof -
  have "(c, Tile t) \<in> set (zip cs tiles)" using assms(2) by (auto simp: coordsOf_def)
  then show ?thesis using those_map_zip[of "readCoord d" cs tiles c "Tile t"] assms(1)
    by (simp add: readTiles_def)
qed

lemma putTiles_index:
  "putTiles t k coords idxs s = Some s1 \<Longrightarrow> j \<in> set idxs \<Longrightarrow> j < length coords"
  by (induction idxs arbitrary: s) (auto split: if_splits option.splits)

lemma tryAssignment_restores:
  assumes "restores recurse"
  shows "kept fst s (tryAssignment recurse p h np ne s sat) \<and>
         (\<forall>s'. tryAssignment recurse p h np ne s sat \<noteq> Exit (Returned False s'))"
proof (cases "int np = int ne - 1")
  case False
  then show ?thesis by (simp add: tryAssignment_def)
next
  case True
  show ?thesis
  proof (cases "checkTreasuresAndMonstersConnectivity (treasure_coords p) (monster_coords p)
                  (diagram s)")
    case None
    then show ?thesis using True by (simp add: tryAssignment_def)
  next
    case (Some connected)
    show ?thesis
    proof (cases connected)
      case False
      then show ?thesis using True Some by (simp add: tryAssignment_def)
    next
      case c: True
      show ?thesis
      proof (cases "recurse (pushHandled h s)")
        case OutOfFuel
        then show ?thesis using True Some c by (simp add: tryAssignment_def)
      next
        case Raised
        then show ?thesis using True Some c by (simp add: tryAssignment_def)
      next
        case (Returned found s')
        show ?thesis
        proof (cases found)
          case t: True
          then show ?thesis using True Some c Returned by (simp add: tryAssignment_def)
        next
          case False
          then have "s' = pushHandled h s" using assms Returned by (simp add: restores_def)
          then show ?thesis using True Some c Returned False by (simp add: tryAssignment_def)
        qed
      qed
    qed
  qed
qed

lemma assignLoop_restores:
  assumes r: "restores recurse"
    and e: "\<And>c. c \<in> set es \<Longrightarrow> readCoord (diagram s) c = Some (Tile EMPTY_SPACE)"
  shows "kept fst s (assignLoop recurse p h es idxs s sat)"
proof (induction idxs arbitrary: sat)
  case Nil
  then show ?case by simp
next
  case (Cons i idxs)
  show ?case
  proof (cases "placeAllButOne p i (enumerate 0 es) s []")
    case None
    then show ?thesis by simp
  next
    case (Some sp)
    obtain s1 placed where sp: "sp = (s1, placed)" by (cases sp)
    have en: "\<And>j c. (j, c) \<in> set (enumerate 0 es) \<Longrightarrow> j < length es \<and> es ! j = c"
      by (auto simp: in_set_enumerate_eq)
    have "placeAllButOne p i (enumerate 0 es) s [] = Some (s1, placed)" using Some sp by simp
    from placeAllButOne_putTiles[OF en this]
    have pl: "putTiles WALL 1 es placed s = Some s1" by auto
    let ?attempt = "tryAssignment recurse p h (length placed) (length es) s1 sat"
    have t: "kept fst s1 ?attempt" "\<And>s'. ?attempt \<noteq> Exit (Returned False s')"
      using tryAssignment_restores[OF r, of s1 p h "length placed" "length es" sat] by auto
    show ?thesis
    proof (cases ?attempt)
      case (Exit res)
      then have "kept fst s (Exit res :: (dfs_state \<times> bool) flow)"
        using t(2) by (cases res) auto
      then show ?thesis using Some sp Exit by simp
    next
      case (Next v)
      obtain s2 sat' where v: "v = (s2, sat')" by (cases v)
      have s2: "s2 = s1" using t(1) Next v by simp
      show ?thesis
      proof (cases "putTiles EMPTY_SPACE (- 1) es placed s2")
        case None
        then show ?thesis using Some sp Next v by simp
      next
        case u: (Some s3)
        have "s3 = s"
        proof (rule putTiles_undo[OF pl])
          show "putTiles EMPTY_SPACE (- 1) es placed s1 = Some s3" using u s2 by simp
        next
          fix j assume "j \<in> set placed"
          then have "j < length es" using putTiles_index[OF pl] by simp
          then show "readCoord (diagram s) (es ! j) = Some (Tile EMPTY_SPACE)" using e by simp
        qed
        then show ?thesis using Some sp Next v u Cons.IH[of sat'] by simp
      qed
    qed
  qed
qed

lemma roomLoop_restores:
  assumes r: "restores recurse"
  shows "kept fst s (roomLoop recurse p hash_id lts s sat)"
proof (induction lts arbitrary: sat)
  case Nil
  then show ?case by simp
next
  case (Cons lt lts)
  show ?case
  proof (cases "isTRoomLTCoordAvailable (cx lt) (cy lt)")
    case False
    then show ?thesis using Cons.IH by simp
  next
    case av: True
    show ?thesis
    proof (cases "isTRoomTilesAvailable (cx lt) (cy lt) (diagram s)")
      case None
      then show ?thesis using av by simp
    next
      case (Some tiles_ok)
      show ?thesis
      proof (cases tiles_ok)
        case False
        then show ?thesis using av Some Cons.IH by simp
      next
        case ok: True
        let ?outer = "getTRoomOuterTileCoords (cx lt) (cy lt)"
        show ?thesis
        proof (cases "readTiles (diagram s) ?outer")
          case None
          then show ?thesis using av Some ok by simp
        next
          case rt: (Some tiles)
          let ?es = "coordsOf EMPTY_SPACE ?outer tiles"
          have e: "\<And>c. c \<in> set ?es \<Longrightarrow> readCoord (diagram s) c = Some (Tile EMPTY_SPACE)"
            using coordsOf_read[OF rt] by simp
          let ?a = "assignLoop recurse p (TreasureRoom hash_id lt) ?es [0..<length ?es] s sat"
          have ka: "kept fst s ?a" by (rule assignLoop_restores[OF r e])
          show ?thesis
          proof (cases "list_ex (\<lambda>t. t \<noteq> Tile WALL \<and> t \<noteq> Tile EMPTY_SPACE) tiles")
            case True
            then show ?thesis using av Some ok rt Cons.IH by simp
          next
            case nx: False
            show ?thesis
            proof (cases "length ?es < 1")
              case True
              then show ?thesis using av Some ok rt nx by simp
            next
              case ne: False
              show ?thesis
              proof (cases ?a)
                case (Exit res)
                then show ?thesis using av Some ok rt nx ne ka by simp
              next
                case (Next v)
                obtain s' sat' where v: "v = (s', sat')" by (cases v)
                then have "s' = s" using ka Next by simp
                then show ?thesis using av Some ok rt nx ne Next v Cons.IH[of sat'] by simp
              qed
            qed
          qed
        qed
      qed
    qed
  qed
qed

lemma treasureLoop_restores:
  assumes r: "restores recurse"
  shows "kept (\<lambda>v. v) s (treasureLoop recurse p tcs s)"
proof (induction tcs)
  case Nil
  then show ?case by simp
next
  case (Cons tc tcs)
  show ?case
  proof (cases "readCoord (diagram s) tc")
    case None
    then show ?thesis by simp
  next
    case (Some t)
    show ?thesis
    proof (cases "t = Tile TREASURE \<and> hashOf tc \<notin> set (handled_treasure_ids s)")
      case False
      then show ?thesis using Some Cons.IH by auto
    next
      case True
      let ?r = "roomLoop recurse p (hashOf tc) (getTRoomLTCoords (cx tc) (cy tc)) s False"
      have k: "kept fst s ?r" by (rule roomLoop_restores[OF r])
      show ?thesis
      proof (cases ?r)
        case (Exit res)
        then show ?thesis using Some True kept_Exit[of fst s res "\<lambda>v. v"] k by simp
      next
        case (Next v)
        obtain s' sat' where v: "v = (s', sat')" by (cases v)
        then have "s' = s" using k Next by simp
        then show ?thesis using Some True Next v Cons.IH by simp
      qed
    qed
  qed
qed

lemma monsterLoop_restores:
  assumes r: "restores recurse"
  shows "kept (\<lambda>v. v) s (monsterLoop recurse p mcs s)"
proof (induction mcs)
  case Nil
  then show ?case by simp
next
  case (Cons mc mcs)
  show ?case
  proof (cases "readCoord (diagram s) mc")
    case None
    then show ?thesis by simp
  next
    case (Some t)
    show ?thesis
    proof (cases "t = Tile MONSTER \<and> hashOf mc \<notin> set (handled_monster_ids s)")
      case False
      then show ?thesis using Some Cons.IH by auto
    next
      case True
      let ?around = "get4DirectionCoords (cx mc) (cy mc)"
      show ?thesis
      proof (cases "readTiles (diagram s) ?around")
        case None
        then show ?thesis using Some True by simp
      next
        case rt: (Some tiles)
        let ?es = "coordsOf EMPTY_SPACE ?around tiles"
        have e: "\<And>c. c \<in> set ?es \<Longrightarrow> readCoord (diagram s) c = Some (Tile EMPTY_SPACE)"
          using coordsOf_read[OF rt] by simp
        let ?a = "assignLoop recurse p (MonsterTile (hashOf mc)) ?es [0..<length ?es] s False"
        have ka: "kept fst s ?a" by (rule assignLoop_restores[OF r e])
        show ?thesis
        proof (cases "list_ex (\<lambda>t. t \<noteq> Tile EMPTY_SPACE \<and> t \<noteq> Tile WALL) tiles \<or>
                      count_list tiles (Tile WALL) \<ge> 4")
          case True
          then show ?thesis using Some \<open>t = Tile MONSTER \<and> _\<close> rt by auto
        next
          case nx: False
          show ?thesis
          proof (cases ?a)
            case (Exit res)
            then show ?thesis using Some True rt nx kept_Exit[of fst s res "\<lambda>v. v"] ka by simp
          next
            case (Next v)
            obtain s' sat' where v: "v = (s', sat')" by (cases v)
            then have "s' = s" using ka Next by simp
            then show ?thesis using Some True rt nx Next v Cons.IH by simp
          qed
        qed
      qed
    qed
  qed
qed

lemma collectAvailable_restores:
  assumes "collectAvailable p row_i columns s acc = Some (s', available)"
  shows "s' = s \<and>
         (\<forall>c \<in> set available. c \<in> set acc \<or> readCoord (diagram s) c = Some (Tile EMPTY_SPACE))"
  using assms
proof (induction columns arbitrary: acc)
  case Nil
  then show ?case by simp
next
  case (Cons column_i columns)
  let ?c = "Coord (int row_i + 1) (int column_i + 1)"
  show ?case
  proof (cases "columnFull (cur_column_projection s) (column_projection p) column_i")
    case True
    then show ?thesis using Cons by simp
  next
    case nf: False
    show ?thesis
    proof (cases "readTile (diagram s) (int row_i + 1) (int column_i + 1)")
      case None
      then show ?thesis using Cons.prems nf by simp
    next
      case (Some t)
      show ?thesis
      proof (cases "t = Tile EMPTY_SPACE \<and>
                    \<not> isContainedByTRoom (int row_i + 1) (int column_i + 1)
                        (treasure_room_lt_coords s) \<and>
                    isTilePlacable (int row_i) (int column_i)
                      (cur_row_projection s) (cur_column_projection s)
                      (row_projection p) (column_projection p)")
        case False
        then have "collectAvailable p row_i columns s acc = Some (s', available)"
          using Cons.prems nf Some by auto
        then show ?thesis using Cons.IH by simp
      next
        case True
        then have e: "readCoord (diagram s) ?c = Some (Tile EMPTY_SPACE)"
          using Some by (simp add: readCoord_def)
        obtain s1 ok s2 where
          a: "putTile WALL 1 ?c s = Some s1" and
          b: "preChecks p (diagram s1) = Some ok" and
          c: "putTile EMPTY_SPACE (- 1) ?c s1 = Some s2" and
          d: "collectAvailable p row_i columns s2 (if ok then acc @ [?c] else acc) =
                Some (s', available)"
          using Cons.prems nf Some True by (auto split: option.splits)
        have "s2 = s" by (rule putTile_undo[OF a c e])
        then have "collectAvailable p row_i columns s (if ok then acc @ [?c] else acc) =
                Some (s', available)" using d by simp
        from Cons.IH[OF this] show ?thesis using e by (cases ok) auto
      qed
    qed
  qed
qed

lemma tryCombination_restores:
  assumes "restores recurse"
  shows "kept fst s (tryCombination recurse p s sat) \<and>
         (\<forall>s'. tryCombination recurse p s sat \<noteq> Exit (Returned False s'))"
proof (cases "preChecks p (diagram s)")
  case None
  then show ?thesis by (simp add: tryCombination_def)
next
  case (Some ok)
  show ?thesis
  proof (cases ok)
    case False
    then show ?thesis using Some by (simp add: tryCombination_def)
  next
    case True
    show ?thesis
    proof (cases "recurse s")
      case OutOfFuel
      then show ?thesis using Some True by (simp add: tryCombination_def)
    next
      case Raised
      then show ?thesis using Some True by (simp add: tryCombination_def)
    next
      case (Returned found s')
      show ?thesis
      proof (cases found)
        case t: True
        then show ?thesis using Some True Returned by (simp add: tryCombination_def)
      next
        case False
        then have "s' = s" using assms Returned by (simp add: restores_def)
        then show ?thesis using Some True Returned False by (simp add: tryCombination_def)
      qed
    qed
  qed
qed

lemma combinationLoop_restores:
  assumes r: "restores recurse"
    and e: "\<And>c. c \<in> set available \<Longrightarrow> readCoord (diagram s) c = Some (Tile EMPTY_SPACE)"
  shows "kept fst s (combinationLoop recurse p available combinations s sat)"
proof (induction combinations arbitrary: sat)
  case Nil
  then show ?case by simp
next
  case (Cons combination combinations)
  show ?case
  proof (cases "putTiles WALL 1 available combination s")
    case None
    then show ?thesis by simp
  next
    case (Some s1)
    let ?attempt = "tryCombination recurse p s1 sat"
    have t: "kept fst s1 ?attempt" "\<And>s'. ?attempt \<noteq> Exit (Returned False s')"
      using tryCombination_restores[OF r, of s1 p sat] by auto
    show ?thesis
    proof (cases ?attempt)
      case (Exit res)
      then have "kept fst s (Exit res :: (dfs_state \<times> bool) flow)"
        using t(2) by (cases res) auto
      then show ?thesis using Some Exit by simp
    next
      case (Next v)
      obtain s2 sat' where v: "v = (s2, sat')" by (cases v)
      have s2: "s2 = s1" using t(1) Next v by simp
      show ?thesis
      proof (cases "putTiles EMPTY_SPACE (- 1) available combination s2")
        case None
        then show ?thesis using Some Next v by simp
      next
        case u: (Some s3)
        have "s3 = s"
        proof (rule putTiles_undo[OF Some])
          show "putTiles EMPTY_SPACE (- 1) available combination s1 = Some s3" using u s2 by simp
        next
          fix j assume "j \<in> set combination"
          then have "j < length available" using putTiles_index[OF Some] by simp
          then show "readCoord (diagram s) (available ! j) = Some (Tile EMPTY_SPACE)"
            using e by simp
        qed
        then show ?thesis using Some Next v u Cons.IH[of sat'] by simp
      qed
    qed
  qed
qed

lemma deficitLoop_restores:
  assumes r: "restores recurse"
  shows "kept (\<lambda>v. v) s (deficitLoop recurse p rows s)"
proof (induction rows)
  case Nil
  then show ?case by simp
next
  case (Cons row_i rows)
  let ?collect = "collectAvailable p row_i [0..<length (cur_column_projection s)] s []"
  show ?case
  proof (cases "rowDifference p s row_i")
    case None
    show ?thesis
    proof (cases ?collect)
      case n: None
      then show ?thesis using None by simp
    next
      case (Some sa)
      obtain s1 available where sa: "sa = (s1, available)" by (cases sa)
      then have "s1 = s" using collectAvailable_restores[of p row_i _ s "[]" s1 available] Some
        by simp
      then show ?thesis using None Some sa by simp
    qed
  next
    case d: (Some difference)
    show ?thesis
    proof (cases "difference \<le> 0")
      case True
      then show ?thesis using d Cons.IH by simp
    next
      case pos: False
      show ?thesis
      proof (cases ?collect)
        case None
        then show ?thesis using d pos by simp
      next
        case (Some sa)
        obtain s1 available where sa: "sa = (s1, available)" by (cases sa)
        have ca: "s1 = s \<and> (\<forall>c \<in> set available. c \<in> set [] \<or>
                    readCoord (diagram s) c = Some (Tile EMPTY_SPACE))"
          using collectAvailable_restores[of p row_i _ s "[]" s1 available] Some sa by simp
        then have s1: "s1 = s"
          and e: "\<And>c. c \<in> set available \<Longrightarrow> readCoord (diagram s) c = Some (Tile EMPTY_SPACE)"
          by auto
        let ?loop = "combinationLoop recurse p available
                       (getCombinations (nat difference) (length available)) s False"
        have k: "kept fst s ?loop" by (rule combinationLoop_restores[OF r e])
        show ?thesis
        proof (cases "int (length available) < difference")
          case True
          then show ?thesis using d pos Some sa s1 by simp
        next
          case enough: False
          show ?thesis
          proof (cases ?loop)
            case (Exit res)
            then show ?thesis
              using d pos Some sa s1 enough kept_Exit[of fst s res "\<lambda>v. v"] k by simp
          next
            case (Next v)
            obtain s2 sat' where v: "v = (s2, sat')" by (cases v)
            then have "s2 = s" using k Next by simp
            then show ?thesis using d pos Some sa s1 enough Next v Cons.IH by simp
          qed
        qed
      qed
    qed
  qed
qed

lemma dfs_body_restores:
  assumes r: "restores recurse"
  shows "restores (dfs_body recurse p)"
  unfolding restores_def
proof (intro allI impI)
  fix s s'
  assume res: "dfs_body recurse p s = Returned False s'"
  show "s' = s"
  proof (cases "isSatisfiedProjections (cur_row_projection s) (cur_column_projection s)
           (row_projection p) (column_projection p)")
    case True
    then show ?thesis using res by (auto simp: dfs_body_def split: option.splits)
  next
    case ns: False
    have kt: "kept (\<lambda>v. v) s (treasureLoop recurse p (treasure_coords p) s)"
      by (rule treasureLoop_restores[OF r])
    show ?thesis
    proof (cases "treasureLoop recurse p (treasure_coords p) s")
      case (Exit res1)
      then show ?thesis using res ns kt by (simp add: dfs_body_def)
    next
      case (Next s1)
      then have s1: "s1 = s" using kt by simp
      have km: "kept (\<lambda>v. v) s (monsterLoop recurse p (monster_coords p) s)"
        by (rule monsterLoop_restores[OF r])
      show ?thesis
      proof (cases "length (handled_treasure_ids s) \<noteq> length (treasure_coords p)")
        case True
        then show ?thesis using res ns Next s1 by (simp add: dfs_body_def)
      next
        case ht: False
        show ?thesis
        proof (cases "monsterLoop recurse p (monster_coords p) s")
          case (Exit res2)
          then show ?thesis using res ns Next s1 ht km by (simp add: dfs_body_def)
        next
          case n2: (Next s2)
          then have s2: "s2 = s" using km by simp
          have kd: "kept (\<lambda>v. v) s
                      (deficitLoop recurse p [0..<length (cur_row_projection s)] s)"
            by (rule deficitLoop_restores[OF r])
          show ?thesis
          proof (cases "length (handled_monster_ids s) \<noteq> length (monster_coords p)")
            case True
            then show ?thesis using res ns Next s1 ht n2 s2 by (simp add: dfs_body_def)
          next
            case hm: False
            show ?thesis
            proof (cases "deficitLoop recurse p [0..<length (cur_row_projection s)] s")
              case (Exit res3)
              then show ?thesis using res ns Next s1 ht n2 s2 hm kd by (simp add: dfs_body_def)
            next
              case n3: (Next s3)
              then have "s3 = s" using kd by simp
              then show ?thesis using res ns Next s1 ht n2 s2 hm n3 by (simp add: dfs_body_def)
            qed
          qed
        qed
      qed
    qed
  qed
qed

lemma dfs_restores: "restores (dfs fuel p)"
proof (induction fuel)
  case 0
  then show ?case by (simp add: restores_def)
next
  case (Suc fuel)
  have "dfs (Suc fuel) p = dfs_body (dfs fuel p) p" by (rule ext) simp
  then show ?case using dfs_body_restores[OF Suc] by simp
qed

text \<open>
  Claim C5 as stated fails: on \<open>corridorBoard\<close> the first call places a wall on (1, 2)
  and raises the counters of row 0 and column 1; the recursive call returns true and
  so does the first call, and the wall and the counters stay.
\<close>

theorem dfs_true_keeps_placed_wall:
  "solve 2 [1, 0, 0, 0, 0, 0, 0, 0] [0, 1, 0, 0, 0, 0, 0, 0] corridorRaw =
     dfs 2 corridorPuzzle (initialState corridorBoard) \<and>
   dfs 1 corridorPuzzle corridorSolved = Returned True corridorSolved \<and>
   dfs 2 corridorPuzzle (initialState corridorBoard) = Returned True corridorSolved \<and>
   readTile (diagram (initialState corridorBoard)) 1 2 = Some (Tile EMPTY_SPACE) \<and>
   readTile (diagram corridorSolved) 1 2 = Some (Tile WALL) \<and>
   cur_row_projection (initialState corridorBoard) = [0, 0, 0, 0, 0, 0, 0, 0] \<and>
   cur_row_projection corridorSolved = [1, 0, 0, 0, 0, 0, 0, 0]"
  by code_simp

text \<open>
  Claim C5, amended. Every tentative mutation made before a recursive call is reverted
  after a recursive call that returns false, so a call of \<open>dfs\<close> that returns false
  leaves the board, both counter arrays and the three lists exactly as it found them.
  (After a recursive call that returns true nothing is reverted: \<open>dfs\<close> returns true at
  once and the board holds the solution.)
\<close>

theorem dfs_false_restores_state:
  "dfs fuel p s = Returned False s' \<Longrightarrow> s' = s"
  using dfs_restores[of fuel p] by (simp add: restores_def)

theorem dfs_false_restores_state_witness:
  "dfs 3 treasurePuzzle (initialState treasureBoard) =
     Returned False (initialState treasureBoard)"
proof -
  have r: "dfs 3 treasurePuzzle (initialState treasureBoard) =
             Returned False (initialState treasureBoard)"
    by code_simp
  from dfs_false_restores_state[OF r] show ?thesis using r by simp
qed

section \<open>The monster phase\<close>







section \<open>The search terminates\<close>

text \<open>
  More fuel never changes a result: a call that does not run out of fuel gives the
  same result with any larger fuel.
\<close>

definition refines :: "(dfs_state \<Rightarrow> dfs_result) \<Rightarrow> (dfs_state \<Rightarrow> dfs_result) \<Rightarrow> bool" where
  "refines f g = (\<forall>s. f s \<noteq> OutOfFuel \<longrightarrow> g s = f s)"

lemma tryAssignment_refines:
  assumes "refines f g" "tryAssignment f p h np ne s sat \<noteq> Exit OutOfFuel"
  shows "tryAssignment g p h np ne s sat = tryAssignment f p h np ne s sat"
proof -
  have "f (pushHandled h s) \<noteq> OutOfFuel \<Longrightarrow> g (pushHandled h s) = f (pushHandled h s)"
    using assms(1) by (simp add: refines_def)
  then show ?thesis using assms(2)
    by (cases "f (pushHandled h s)")
       (auto simp: tryAssignment_def split: option.splits if_splits)
qed

lemma assignLoop_refines:
  assumes "refines f g"
  shows "assignLoop f p h es idxs s sat \<noteq> Exit OutOfFuel \<Longrightarrow>
         assignLoop g p h es idxs s sat = assignLoop f p h es idxs s sat"
proof (induction idxs arbitrary: s sat)
  case Nil
  then show ?case by simp
next
  case (Cons i idxs)
  show ?case
  proof (cases "placeAllButOne p i (enumerate 0 es) s []")
    case None
    then show ?thesis by simp
  next
    case (Some sp)
    obtain s1 placed where sp: "sp = (s1, placed)" by (cases sp)
    let ?tf = "tryAssignment f p h (length placed) (length es) s1 sat"
    have ne: "?tf \<noteq> Exit OutOfFuel" using Cons.prems Some sp by auto
    have eq: "tryAssignment g p h (length placed) (length es) s1 sat = ?tf"
      by (rule tryAssignment_refines[OF assms ne])
    show ?thesis
    proof (cases ?tf)
      case (Exit r)
      then show ?thesis using Some sp eq by simp
    next
      case (Next v)
      obtain s2 sat' where v: "v = (s2, sat')" by (cases v)
      show ?thesis
      proof (cases "putTiles EMPTY_SPACE (- 1) es placed s2")
        case None
        then show ?thesis using Some sp eq Next v by simp
      next
        case u: (Some s3)
        have "assignLoop f p h es idxs s3 sat' \<noteq> Exit OutOfFuel"
          using Cons.prems Some sp Next v u by simp
        from Cons.IH[OF this] show ?thesis using Some sp eq Next v u by simp
      qed
    qed
  qed
qed

lemma roomLoop_refines:
  assumes "refines f g"
  shows "roomLoop f p hash_id lts s sat \<noteq> Exit OutOfFuel \<Longrightarrow>
         roomLoop g p hash_id lts s sat = roomLoop f p hash_id lts s sat"
proof (induction lts arbitrary: s sat)
  case Nil
  then show ?case by simp
next
  case (Cons lt lts)
  let ?outer = "getTRoomOuterTileCoords (cx lt) (cy lt)"
  show ?case
  proof (cases "isTRoomLTCoordAvailable (cx lt) (cy lt) \<and>
                isTRoomTilesAvailable (cx lt) (cy lt) (diagram s) = Some True \<and>
                (\<exists>tiles. readTiles (diagram s) ?outer = Some tiles \<and>
                   \<not> list_ex (\<lambda>t. t \<noteq> Tile WALL \<and> t \<noteq> Tile EMPTY_SPACE) tiles \<and>
                   \<not> length (coordsOf EMPTY_SPACE ?outer tiles) < 1)")
    case False
    then show ?thesis using Cons
      by (auto split: option.splits if_splits)
  next
    case True
    then obtain tiles where t: "readTiles (diagram s) ?outer = Some tiles"
      "\<not> list_ex (\<lambda>t. t \<noteq> Tile WALL \<and> t \<noteq> Tile EMPTY_SPACE) tiles"
      "\<not> length (coordsOf EMPTY_SPACE ?outer tiles) < 1" by blast
    let ?es = "coordsOf EMPTY_SPACE ?outer tiles"
    let ?af = "assignLoop f p (TreasureRoom hash_id lt) ?es [0..<length ?es] s sat"
    have ne: "?af \<noteq> Exit OutOfFuel" using Cons.prems True t by auto
    have eq: "assignLoop g p (TreasureRoom hash_id lt) ?es [0..<length ?es] s sat = ?af"
      by (rule assignLoop_refines[OF assms ne])
    show ?thesis
    proof (cases ?af)
      case (Exit r)
      then show ?thesis using True t eq by simp
    next
      case (Next v)
      obtain s' sat' where v: "v = (s', sat')" by (cases v)
      have "roomLoop f p hash_id lts s' sat' \<noteq> Exit OutOfFuel"
        using Cons.prems True t Next v by simp
      from Cons.IH[OF this] show ?thesis using True t eq Next v by simp
    qed
  qed
qed

lemma treasureLoop_refines:
  assumes "refines f g"
  shows "treasureLoop f p tcs s \<noteq> Exit OutOfFuel \<Longrightarrow>
         treasureLoop g p tcs s = treasureLoop f p tcs s"
proof (induction tcs arbitrary: s)
  case Nil
  then show ?case by simp
next
  case (Cons tc tcs)
  show ?case
  proof (cases "\<exists>t. readCoord (diagram s) tc = Some t \<and> t = Tile TREASURE \<and>
                  hashOf tc \<notin> set (handled_treasure_ids s)")
    case False
    then show ?thesis using Cons by (auto split: option.splits if_splits)
  next
    case True
    let ?rf = "roomLoop f p (hashOf tc) (getTRoomLTCoords (cx tc) (cy tc)) s False"
    have ne: "?rf \<noteq> Exit OutOfFuel" using Cons.prems True by auto
    have eq: "roomLoop g p (hashOf tc) (getTRoomLTCoords (cx tc) (cy tc)) s False = ?rf"
      by (rule roomLoop_refines[OF assms ne])
    show ?thesis
    proof (cases ?rf)
      case (Exit r)
      then show ?thesis using True eq by auto
    next
      case (Next v)
      obtain s' sat' where v: "v = (s', sat')" by (cases v)
      show ?thesis
      proof (cases sat')
        case False
        then show ?thesis using True eq Next v by auto
      next
        case t: True
        have "treasureLoop f p tcs s' \<noteq> Exit OutOfFuel"
          using Cons.prems True Next v t by auto
        from Cons.IH[OF this] show ?thesis using True eq Next v t by auto
      qed
    qed
  qed
qed

lemma monsterLoop_refines:
  assumes "refines f g"
  shows "monsterLoop f p mcs s \<noteq> Exit OutOfFuel \<Longrightarrow>
         monsterLoop g p mcs s = monsterLoop f p mcs s"
proof (induction mcs arbitrary: s)
  case Nil
  then show ?case by simp
next
  case (Cons mc mcs)
  let ?around = "get4DirectionCoords (cx mc) (cy mc)"
  show ?case
  proof (cases "readCoord (diagram s) mc = Some (Tile MONSTER) \<and>
                hashOf mc \<notin> set (handled_monster_ids s) \<and>
                (\<exists>tiles. readTiles (diagram s) ?around = Some tiles \<and>
                   \<not> list_ex (\<lambda>t. t \<noteq> Tile EMPTY_SPACE \<and> t \<noteq> Tile WALL) tiles \<and>
                   \<not> count_list tiles (Tile WALL) \<ge> 4)")
    case False
    then show ?thesis using Cons by (auto split: option.splits if_splits)
  next
    case True
    then obtain tiles where t: "readTiles (diagram s) ?around = Some tiles"
      "\<not> list_ex (\<lambda>t. t \<noteq> Tile EMPTY_SPACE \<and> t \<noteq> Tile WALL) tiles"
      "\<not> count_list tiles (Tile WALL) \<ge> 4" by blast
    let ?es = "coordsOf EMPTY_SPACE ?around tiles"
    let ?af = "assignLoop f p (MonsterTile (hashOf mc)) ?es [0..<length ?es] s False"
    have ne: "?af \<noteq> Exit OutOfFuel" using Cons.prems True t by auto
    have eq: "assignLoop g p (MonsterTile (hashOf mc)) ?es [0..<length ?es] s False = ?af"
      by (rule assignLoop_refines[OF assms ne])
    show ?thesis
    proof (cases ?af)
      case (Exit r)
      then show ?thesis using True t eq by simp
    next
      case (Next v)
      obtain s' sat' where v: "v = (s', sat')" by (cases v)
      show ?thesis
      proof (cases sat')
        case False
        then show ?thesis using True t eq Next v by simp
      next
        case st: True
        have "monsterLoop f p mcs s' \<noteq> Exit OutOfFuel"
          using Cons.prems True t Next v st by simp
        from Cons.IH[OF this] show ?thesis using True t eq Next v st by simp
      qed
    qed
  qed
qed

lemma tryCombination_refines:
  assumes "refines f g" "tryCombination f p s sat \<noteq> Exit OutOfFuel"
  shows "tryCombination g p s sat = tryCombination f p s sat"
proof -
  have "f s \<noteq> OutOfFuel \<Longrightarrow> g s = f s" using assms(1) by (simp add: refines_def)
  then show ?thesis using assms(2)
    by (cases "f s") (auto simp: tryCombination_def split: option.splits if_splits)
qed

lemma combinationLoop_refines:
  assumes "refines f g"
  shows "combinationLoop f p av combinations s sat \<noteq> Exit OutOfFuel \<Longrightarrow>
         combinationLoop g p av combinations s sat = combinationLoop f p av combinations s sat"
proof (induction combinations arbitrary: s sat)
  case Nil
  then show ?case by simp
next
  case (Cons c combinations)
  show ?case
  proof (cases "putTiles WALL 1 av c s")
    case None
    then show ?thesis by simp
  next
    case (Some s1)
    let ?tf = "tryCombination f p s1 sat"
    have ne: "?tf \<noteq> Exit OutOfFuel" using Cons.prems Some by auto
    have eq: "tryCombination g p s1 sat = ?tf" by (rule tryCombination_refines[OF assms ne])
    show ?thesis
    proof (cases ?tf)
      case (Exit r)
      then show ?thesis using Some eq by simp
    next
      case (Next v)
      obtain s2 sat' where v: "v = (s2, sat')" by (cases v)
      show ?thesis
      proof (cases "putTiles EMPTY_SPACE (- 1) av c s2")
        case None
        then show ?thesis using Some eq Next v by simp
      next
        case u: (Some s3)
        have "combinationLoop f p av combinations s3 sat' \<noteq> Exit OutOfFuel"
          using Cons.prems Some Next v u by simp
        from Cons.IH[OF this] show ?thesis using Some eq Next v u by simp
      qed
    qed
  qed
qed

lemma deficitLoop_refines:
  assumes "refines f g"
  shows "deficitLoop f p rows s \<noteq> Exit OutOfFuel \<Longrightarrow>
         deficitLoop g p rows s = deficitLoop f p rows s"
proof (induction rows arbitrary: s)
  case Nil
  then show ?case by simp
next
  case (Cons row_i rows)
  let ?collect = "collectAvailable p row_i [0..<length (cur_column_projection s)] s []"
  show ?case
  proof (cases "rowDifference p s row_i")
    case None
    then show ?thesis by simp
  next
    case d: (Some difference)
    show ?thesis
    proof (cases "difference \<le> 0")
      case True
      then show ?thesis using d Cons by simp
    next
      case pos: False
      show ?thesis
      proof (cases ?collect)
        case None
        then show ?thesis using d pos by simp
      next
        case (Some sa)
        obtain s1 av where sa: "sa = (s1, av)" by (cases sa)
        show ?thesis
        proof (cases "int (length av) < difference")
          case True
          then show ?thesis using d pos Some sa by simp
        next
          case enough: False
          let ?lf = "combinationLoop f p av (getCombinations (nat difference) (length av)) s1 False"
          have ne: "?lf \<noteq> Exit OutOfFuel" using Cons.prems d pos Some sa enough by auto
          have eq: "combinationLoop g p av (getCombinations (nat difference) (length av)) s1 False
                      = ?lf"
            by (rule combinationLoop_refines[OF assms ne])
          show ?thesis
          proof (cases ?lf)
            case (Exit r)
            then show ?thesis using d pos Some sa enough eq by simp
          next
            case (Next v)
            obtain s2 sat' where v: "v = (s2, sat')" by (cases v)
            show ?thesis
            proof (cases sat')
              case False
              then show ?thesis using d pos Some sa enough eq Next v by simp
            next
              case st: True
              have "deficitLoop f p rows s2 \<noteq> Exit OutOfFuel"
                using Cons.prems d pos Some sa enough Next v st by simp
              from Cons.IH[OF this] show ?thesis using d pos Some sa enough eq Next v st by simp
            qed
          qed
        qed
      qed
    qed
  qed
qed

lemma dfs_body_refines:
  assumes r: "refines f g"
  shows "refines (dfs_body f p) (dfs_body g p)"
  unfolding refines_def
proof (intro allI impI)
  fix s
  assume ne: "dfs_body f p s \<noteq> OutOfFuel"
  show "dfs_body g p s = dfs_body f p s"
  proof (cases "isSatisfiedProjections (cur_row_projection s) (cur_column_projection s)
           (row_projection p) (column_projection p)")
    case True
    then show ?thesis by (simp add: dfs_body_def)
  next
    case ns: False
    have t_ne: "treasureLoop f p (treasure_coords p) s \<noteq> Exit OutOfFuel"
      using ne ns by (auto simp: dfs_body_def)
    have t_eq: "treasureLoop g p (treasure_coords p) s = treasureLoop f p (treasure_coords p) s"
      by (rule treasureLoop_refines[OF r t_ne])
    show ?thesis
    proof (cases "treasureLoop f p (treasure_coords p) s")
      case (Exit res)
      then show ?thesis using ns t_eq by (simp add: dfs_body_def)
    next
      case (Next s1)
      show ?thesis
      proof (cases "length (handled_treasure_ids s1) \<noteq> length (treasure_coords p)")
        case True
        then show ?thesis using ns t_eq Next by (simp add: dfs_body_def)
      next
        case ht: False
        have m_ne: "monsterLoop f p (monster_coords p) s1 \<noteq> Exit OutOfFuel"
          using ne ns Next ht by (auto simp: dfs_body_def)
        have m_eq: "monsterLoop g p (monster_coords p) s1 = monsterLoop f p (monster_coords p) s1"
          by (rule monsterLoop_refines[OF r m_ne])
        show ?thesis
        proof (cases "monsterLoop f p (monster_coords p) s1")
          case (Exit res)
          then show ?thesis using ns t_eq Next ht m_eq by (simp add: dfs_body_def)
        next
          case n2: (Next s2)
          show ?thesis
          proof (cases "length (handled_monster_ids s2) \<noteq> length (monster_coords p)")
            case True
            then show ?thesis using ns t_eq Next ht m_eq n2 by (simp add: dfs_body_def)
          next
            case hm: False
            have d_ne: "deficitLoop f p [0..<length (cur_row_projection s2)] s2 \<noteq> Exit OutOfFuel"
              using ne ns Next ht n2 hm by (auto simp: dfs_body_def)
            have d_eq: "deficitLoop g p [0..<length (cur_row_projection s2)] s2 =
                        deficitLoop f p [0..<length (cur_row_projection s2)] s2"
              by (rule deficitLoop_refines[OF r d_ne])
            show ?thesis using ns t_eq Next ht m_eq n2 hm d_eq by (simp add: dfs_body_def)
          qed
        qed
      qed
    qed
  qed
qed

lemma dfs_Suc_refines: "refines (dfs fuel p) (dfs (Suc fuel) p)"
proof (induction fuel)
  case 0
  then show ?case by (simp add: refines_def)
next
  case (Suc fuel)
  have a: "dfs (Suc fuel) p = dfs_body (dfs fuel p) p" by (rule ext) simp
  have b: "dfs (Suc (Suc fuel)) p = dfs_body (dfs (Suc fuel) p) p" by (rule ext) simp
  show ?case unfolding a b using dfs_body_refines[OF Suc] a by simp
qed

lemma dfs_more_fuel:
  "dfs fuel p s \<noteq> OutOfFuel \<Longrightarrow> dfs (fuel + extra) p s = dfs fuel p s"
proof (induction extra)
  case 0
  then show ?case by simp
next
  case (Suc extra)
  then have "dfs (fuel + extra) p s \<noteq> OutOfFuel" by simp
  then have "dfs (Suc (fuel + extra)) p s = dfs (fuel + extra) p s"
    using dfs_Suc_refines[of "fuel + extra" p] by (simp add: refines_def)
  then show ?case using Suc by simp
qed

text \<open>
  Every recursive call is made on a state with fewer unresolved treasures, fewer
  unresolved monsters or fewer Empty tiles, and none of the three ever grows. So the
  recursion is never deeper than the sum of the three, and with that much fuel (plus
  one for the call itself) \<open>dfs\<close> returns or raises.
\<close>

definition emptyTiles :: "Diagram \<Rightarrow> (int \<times> int) set" where
  "emptyTiles d = {(x, y). readTile d x y = Some (Tile EMPTY_SPACE)}"

definition unresolved :: "TileType \<Rightarrow> Diagram \<Rightarrow> int list \<Rightarrow> Coordinate list \<Rightarrow> nat" where
  "unresolved t d ids cs =
     length (filter (\<lambda>c. readCoord d c = Some (Tile t) \<and> hashOf c \<notin> set ids) cs)"

definition searchMeasure :: "puzzle \<Rightarrow> dfs_state \<Rightarrow> nat" where
  "searchMeasure p s =
     unresolved TREASURE (diagram s) (handled_treasure_ids s) (treasure_coords p) +
     unresolved MONSTER (diagram s) (handled_monster_ids s) (monster_coords p) +
     card (emptyTiles (diagram s))"

lemma finite_emptyTiles: "finite (emptyTiles d)"
proof -
  let ?w = "Max (insert 0 (length ` set d))"
  have "emptyTiles d \<subseteq> {0..<int (length d)} \<times> {0..<int ?w}"
  proof
    fix xy assume a: "xy \<in> emptyTiles d"
    obtain x y where xy: "xy = (x, y)" by (cases xy)
    have r: "readTile d x y = Some (Tile EMPTY_SPACE)" using a xy by (simp add: emptyTiles_def)
    then have ix: "inIndex x d" and iy: "inIndex y (d ! nat x)"
      by (auto simp: readTile_def split: if_splits)
    have "nat x < length d" using ix by (auto simp: inIndex_def)
    then have "d ! nat x \<in> set d" by (rule nth_mem)
    then have "length (d ! nat x) \<le> ?w" by simp
    then show "xy \<in> {0..<int (length d)} \<times> {0..<int ?w}"
      using ix iy xy by (auto simp: inIndex_def)
  qed
  then show ?thesis by (rule finite_subset) simp
qed

lemma length_filter_mono:
  "(\<And>x. x \<in> set xs \<Longrightarrow> P x \<Longrightarrow> Q x) \<Longrightarrow> length (filter P xs) \<le> length (filter Q xs)"
  by (induction xs) auto

lemma length_filter_less:
  assumes "\<And>x. x \<in> set xs \<Longrightarrow> P x \<Longrightarrow> Q x" "a \<in> set xs" "Q a" "\<not> P a"
  shows "length (filter P xs) < length (filter Q xs)"
  using assms
proof (induction xs)
  case Nil
  then show ?case by simp
next
  case (Cons x xs)
  have le: "length (filter P xs) \<le> length (filter Q xs)"
    by (rule length_filter_mono) (use Cons.prems(1) in auto)
  show ?case
  proof (cases "x = a")
    case True
    then show ?thesis using le Cons.prems(3,4) by simp
  next
    case False
    then have "a \<in> set xs" using Cons.prems(2) by simp
    then have "length (filter P xs) < length (filter Q xs)"
      using Cons.IH Cons.prems by auto
    then show ?thesis using Cons.prems(1)[of x] by auto
  qed
qed


lemma unresolved_mono:
  assumes "\<And>c. readCoord d' c = Some (Tile t) \<Longrightarrow> readCoord d c = Some (Tile t)"
    and "set ids \<subseteq> set ids'"
  shows "unresolved t d' ids' cs \<le> unresolved t d ids cs"
  unfolding unresolved_def
  by (rule length_filter_mono) (use assms in auto)

lemma unresolved_less:
  assumes "\<And>c. readCoord d' c = Some (Tile t) \<Longrightarrow> readCoord d c = Some (Tile t)"
    and "set ids \<subseteq> set ids'"
    and "a \<in> set cs" "readCoord d a = Some (Tile t)" "hashOf a \<notin> set ids" "hashOf a \<in> set ids'"
  shows "unresolved t d' ids' cs < unresolved t d ids cs"
  unfolding unresolved_def
proof (rule length_filter_less[where a = a])
  show "a \<in> set cs" by (rule assms(3))
  show "readCoord d a = Some (Tile t) \<and> hashOf a \<notin> set ids" using assms(4,5) by simp
  show "\<not> (readCoord d' a = Some (Tile t) \<and> hashOf a \<notin> set ids')" using assms(6) by simp
  show "\<And>x. x \<in> set cs \<Longrightarrow> readCoord d' x = Some (Tile t) \<and> hashOf x \<notin> set ids' \<Longrightarrow>
          readCoord d x = Some (Tile t) \<and> hashOf x \<notin> set ids"
    using assms(1,2) by auto
qed

lemma putTiles_keeps_tile:
  assumes "putTiles WALL 1 coords idxs s = Some s1" "t \<noteq> WALL"
    "readCoord (diagram s1) c = Some (Tile t)"
  shows "readCoord (diagram s) c = Some (Tile t)"
  using assms(2,3) putTiles_reads(1)[OF assms(1), of "cx c" "cy c"]
  by (auto simp: readCoord_def split: if_splits)

lemma putTiles_empty_le:
  assumes "putTiles WALL 1 coords idxs s = Some s1"
  shows "card (emptyTiles (diagram s1)) \<le> card (emptyTiles (diagram s))"
proof -
  have "emptyTiles (diagram s1) \<subseteq> emptyTiles (diagram s)"
    using putTiles_reads(1)[OF assms] by (auto simp: emptyTiles_def split: if_splits)
  then show ?thesis by (rule card_mono[OF finite_emptyTiles])
qed

lemma putTiles_empty_less:
  assumes pl: "putTiles WALL 1 coords idxs s = Some s1"
    and j: "j \<in> set idxs" "readCoord (diagram s) (coords ! j) = Some (Tile EMPTY_SPACE)"
  shows "card (emptyTiles (diagram s1)) < card (emptyTiles (diagram s))"
proof -
  let ?c = "coords ! j"
  have sub: "emptyTiles (diagram s1) \<subseteq> emptyTiles (diagram s)"
    using putTiles_reads(1)[OF pl] by (auto simp: emptyTiles_def split: if_splits)
  have inn: "(cx ?c, cy ?c) \<in> emptyTiles (diagram s)"
    using j(2) by (simp add: emptyTiles_def readCoord_def)
  have "Coord (cx ?c) (cy ?c) \<in> set (map ((!) coords) idxs)" using j(1) by simp
  then have "readTile (diagram s1) (cx ?c) (cy ?c) = Some (Tile WALL)"
    using putTiles_reads(1)[OF pl, of "cx ?c" "cy ?c"] by simp
  then have out: "(cx ?c, cy ?c) \<notin> emptyTiles (diagram s1)" by (simp add: emptyTiles_def)
  have "emptyTiles (diagram s1) \<subset> emptyTiles (diagram s)" using sub inn out by blast
  then show ?thesis by (rule psubset_card_mono[OF finite_emptyTiles])
qed

lemma measure_push_treasure:
  assumes pl: "putTiles WALL 1 es placed s = Some s1"
    and t: "t \<in> set (treasure_coords p)" "readCoord (diagram s) t = Some (Tile TREASURE)"
      "hashOf t \<notin> set (handled_treasure_ids s)"
  shows "searchMeasure p (pushHandled (TreasureRoom (hashOf t) lt_coord) s1) < searchMeasure p s"
proof -
  have keep: "\<And>k c. k \<noteq> WALL \<Longrightarrow> readCoord (diagram s1) c = Some (Tile k) \<Longrightarrow>
      readCoord (diagram s) c = Some (Tile k)"
    using putTiles_keeps_tile[OF pl] by blast
  have a: "unresolved TREASURE (diagram s1) (handled_treasure_ids s1 @ [hashOf t])
             (treasure_coords p) <
           unresolved TREASURE (diagram s) (handled_treasure_ids s) (treasure_coords p)"
    by (rule unresolved_less[where a = t])
       (use keep t putTiles_reads(4)[OF pl] in auto)
  have b: "unresolved MONSTER (diagram s1) (handled_monster_ids s1) (monster_coords p) \<le>
           unresolved MONSTER (diagram s) (handled_monster_ids s) (monster_coords p)"
    by (rule unresolved_mono) (use keep putTiles_reads(5)[OF pl] in auto)
  show ?thesis using a b putTiles_empty_le[OF pl] by (simp add: searchMeasure_def)
qed

lemma measure_push_monster:
  assumes pl: "putTiles WALL 1 es placed s = Some s1"
    and m: "m \<in> set (monster_coords p)" "readCoord (diagram s) m = Some (Tile MONSTER)"
      "hashOf m \<notin> set (handled_monster_ids s)"
  shows "searchMeasure p (pushHandled (MonsterTile (hashOf m)) s1) < searchMeasure p s"
proof -
  have keep: "\<And>k c. k \<noteq> WALL \<Longrightarrow> readCoord (diagram s1) c = Some (Tile k) \<Longrightarrow>
      readCoord (diagram s) c = Some (Tile k)"
    using putTiles_keeps_tile[OF pl] by blast
  have a: "unresolved MONSTER (diagram s1) (handled_monster_ids s1 @ [hashOf m])
             (monster_coords p) <
           unresolved MONSTER (diagram s) (handled_monster_ids s) (monster_coords p)"
    by (rule unresolved_less[where a = m])
       (use keep m putTiles_reads(5)[OF pl] in auto)
  have b: "unresolved TREASURE (diagram s1) (handled_treasure_ids s1) (treasure_coords p) \<le>
           unresolved TREASURE (diagram s) (handled_treasure_ids s) (treasure_coords p)"
    by (rule unresolved_mono) (use keep putTiles_reads(4)[OF pl] in auto)
  show ?thesis using a b putTiles_empty_le[OF pl] by (simp add: searchMeasure_def)
qed

lemma measure_combination:
  assumes pl: "putTiles WALL 1 av combination s = Some s1"
    and j: "j \<in> set combination" "readCoord (diagram s) (av ! j) = Some (Tile EMPTY_SPACE)"
  shows "searchMeasure p s1 < searchMeasure p s"
proof -
  have keep: "\<And>k c. k \<noteq> WALL \<Longrightarrow> readCoord (diagram s1) c = Some (Tile k) \<Longrightarrow>
      readCoord (diagram s) c = Some (Tile k)"
    using putTiles_keeps_tile[OF pl] by blast
  have a: "unresolved TREASURE (diagram s1) (handled_treasure_ids s1) (treasure_coords p) \<le>
           unresolved TREASURE (diagram s) (handled_treasure_ids s) (treasure_coords p)"
    by (rule unresolved_mono) (use keep putTiles_reads(4)[OF pl] in auto)
  have b: "unresolved MONSTER (diagram s1) (handled_monster_ids s1) (monster_coords p) \<le>
           unresolved MONSTER (diagram s) (handled_monster_ids s) (monster_coords p)"
    by (rule unresolved_mono) (use keep putTiles_reads(5)[OF pl] in auto)
  show ?thesis using a b putTiles_empty_less[OF pl j] by (simp add: searchMeasure_def)
qed

lemma tryAssignment_fuel:
  assumes "recurse (pushHandled h s) \<noteq> OutOfFuel"
  shows "tryAssignment recurse p h np ne s sat \<noteq> Exit OutOfFuel"
  using assms
  by (cases "recurse (pushHandled h s)")
     (auto simp: tryAssignment_def split: option.splits if_splits)

lemma assignLoop_fuel:
  assumes r: "restores recurse"
    and e: "\<And>c. c \<in> set es \<Longrightarrow> readCoord (diagram s) c = Some (Tile EMPTY_SPACE)"
    and f: "\<And>placed s1. putTiles WALL 1 es placed s = Some s1 \<Longrightarrow>
              recurse (pushHandled h s1) \<noteq> OutOfFuel"
  shows "assignLoop recurse p h es idxs s sat \<noteq> Exit OutOfFuel"
proof (induction idxs arbitrary: sat)
  case Nil
  then show ?case by simp
next
  case (Cons i idxs)
  show ?case
  proof (cases "placeAllButOne p i (enumerate 0 es) s []")
    case None
    then show ?thesis by simp
  next
    case (Some sp)
    obtain s1 placed where sp: "sp = (s1, placed)" by (cases sp)
    have en: "\<And>j c. (j, c) \<in> set (enumerate 0 es) \<Longrightarrow> j < length es \<and> es ! j = c"
      by (auto simp: in_set_enumerate_eq)
    have "placeAllButOne p i (enumerate 0 es) s [] = Some (s1, placed)" using Some sp by simp
    from placeAllButOne_putTiles[OF en this]
    have pl: "putTiles WALL 1 es placed s = Some s1" by auto
    let ?attempt = "tryAssignment recurse p h (length placed) (length es) s1 sat"
    have t: "kept fst s1 ?attempt"
      using tryAssignment_restores[OF r, of s1 p h "length placed" "length es" sat] by auto
    have ne: "?attempt \<noteq> Exit OutOfFuel"
      using f[OF pl] by (rule tryAssignment_fuel[where recurse = recurse and h = h and s = s1])
    show ?thesis
    proof (cases ?attempt)
      case (Exit res)
      then show ?thesis using Some sp ne by simp
    next
      case (Next v)
      obtain s2 sat' where v: "v = (s2, sat')" by (cases v)
      have s2: "s2 = s1" using t Next v by simp
      show ?thesis
      proof (cases "putTiles EMPTY_SPACE (- 1) es placed s2")
        case None
        then show ?thesis using Some sp Next v by simp
      next
        case u: (Some s3)
        have "s3 = s"
        proof (rule putTiles_undo[OF pl])
          show "putTiles EMPTY_SPACE (- 1) es placed s1 = Some s3" using u s2 by simp
        next
          fix j assume "j \<in> set placed"
          then have "j < length es" using putTiles_index[OF pl] by simp
          then show "readCoord (diagram s) (es ! j) = Some (Tile EMPTY_SPACE)" using e by simp
        qed
        then show ?thesis using Some sp Next v u Cons.IH[of sat'] by simp
      qed
    qed
  qed
qed

lemma roomLoop_fuel:
  assumes r: "restores recurse"
    and f: "\<And>lt_coord es placed s1. putTiles WALL 1 es placed s = Some s1 \<Longrightarrow>
              recurse (pushHandled (TreasureRoom hash_id lt_coord) s1) \<noteq> OutOfFuel"
  shows "roomLoop recurse p hash_id lts s sat \<noteq> Exit OutOfFuel"
proof (induction lts arbitrary: sat)
  case Nil
  then show ?case by simp
next
  case (Cons lt lts)
  let ?outer = "getTRoomOuterTileCoords (cx lt) (cy lt)"
  show ?case
  proof (cases "isTRoomLTCoordAvailable (cx lt) (cy lt) \<and>
                isTRoomTilesAvailable (cx lt) (cy lt) (diagram s) = Some True \<and>
                (\<exists>tiles. readTiles (diagram s) ?outer = Some tiles \<and>
                   \<not> list_ex (\<lambda>t. t \<noteq> Tile WALL \<and> t \<noteq> Tile EMPTY_SPACE) tiles \<and>
                   \<not> length (coordsOf EMPTY_SPACE ?outer tiles) < 1)")
    case False
    then show ?thesis using Cons.IH
      by (auto split: option.splits if_splits)
  next
    case True
    then obtain tiles where t: "readTiles (diagram s) ?outer = Some tiles"
      "\<not> list_ex (\<lambda>t. t \<noteq> Tile WALL \<and> t \<noteq> Tile EMPTY_SPACE) tiles"
      "\<not> length (coordsOf EMPTY_SPACE ?outer tiles) < 1" by blast
    let ?es = "coordsOf EMPTY_SPACE ?outer tiles"
    have e: "\<And>c. c \<in> set ?es \<Longrightarrow> readCoord (diagram s) c = Some (Tile EMPTY_SPACE)"
      using coordsOf_read[OF t(1)] by simp
    let ?a = "assignLoop recurse p (TreasureRoom hash_id lt) ?es [0..<length ?es] s sat"
    have ka: "kept fst s ?a" by (rule assignLoop_restores[OF r e])
    have ne: "?a \<noteq> Exit OutOfFuel" by (rule assignLoop_fuel[OF r e f])
    show ?thesis
    proof (cases ?a)
      case (Exit res)
      then show ?thesis using True t ne by simp
    next
      case (Next v)
      obtain s' sat' where v: "v = (s', sat')" by (cases v)
      then have "s' = s" using ka Next by simp
      then show ?thesis using True t Next v Cons.IH[of sat'] by simp
    qed
  qed
qed

lemma treasureLoop_fuel:
  assumes r: "restores recurse"
    and f: "\<And>t lt_coord es placed s1. t \<in> set tcs \<Longrightarrow>
              readCoord (diagram s) t = Some (Tile TREASURE) \<Longrightarrow>
              hashOf t \<notin> set (handled_treasure_ids s) \<Longrightarrow>
              putTiles WALL 1 es placed s = Some s1 \<Longrightarrow>
              recurse (pushHandled (TreasureRoom (hashOf t) lt_coord) s1) \<noteq> OutOfFuel"
  shows "treasureLoop recurse p tcs s \<noteq> Exit OutOfFuel"
  using f
proof (induction tcs)
  case Nil
  then show ?case by simp
next
  case (Cons tc tcs)
  have ih: "treasureLoop recurse p tcs s \<noteq> Exit OutOfFuel"
    by (rule Cons.IH) (use Cons.prems in auto)
  show ?case
  proof (cases "readCoord (diagram s) tc = Some (Tile TREASURE) \<and>
                hashOf tc \<notin> set (handled_treasure_ids s)")
    case False
    then show ?thesis using ih by (auto split: option.splits)
  next
    case True
    let ?r = "roomLoop recurse p (hashOf tc) (getTRoomLTCoords (cx tc) (cy tc)) s False"
    have k: "kept fst s ?r" by (rule roomLoop_restores[OF r])
    have ne: "?r \<noteq> Exit OutOfFuel"
      by (rule roomLoop_fuel[OF r]) (use Cons.prems[of tc] True in auto)
    show ?thesis
    proof (cases ?r)
      case (Exit res)
      then show ?thesis using True ne by simp
    next
      case (Next v)
      obtain s' sat' where v: "v = (s', sat')" by (cases v)
      then have "s' = s" using k Next by simp
      then show ?thesis using True Next v ih by simp
    qed
  qed
qed

lemma monsterLoop_fuel:
  assumes r: "restores recurse"
    and f: "\<And>m es placed s1. m \<in> set mcs \<Longrightarrow>
              readCoord (diagram s) m = Some (Tile MONSTER) \<Longrightarrow>
              hashOf m \<notin> set (handled_monster_ids s) \<Longrightarrow>
              putTiles WALL 1 es placed s = Some s1 \<Longrightarrow>
              recurse (pushHandled (MonsterTile (hashOf m)) s1) \<noteq> OutOfFuel"
  shows "monsterLoop recurse p mcs s \<noteq> Exit OutOfFuel"
  using f
proof (induction mcs)
  case Nil
  then show ?case by simp
next
  case (Cons mc mcs)
  have ih: "monsterLoop recurse p mcs s \<noteq> Exit OutOfFuel"
    by (rule Cons.IH) (use Cons.prems in auto)
  let ?around = "get4DirectionCoords (cx mc) (cy mc)"
  show ?case
  proof (cases "readCoord (diagram s) mc = Some (Tile MONSTER) \<and>
                hashOf mc \<notin> set (handled_monster_ids s) \<and>
                (\<exists>tiles. readTiles (diagram s) ?around = Some tiles \<and>
                   \<not> list_ex (\<lambda>t. t \<noteq> Tile EMPTY_SPACE \<and> t \<noteq> Tile WALL) tiles \<and>
                   \<not> count_list tiles (Tile WALL) \<ge> 4)")
    case False
    then show ?thesis using ih by (auto split: option.splits if_splits)
  next
    case True
    then obtain tiles where t: "readTiles (diagram s) ?around = Some tiles"
      "\<not> list_ex (\<lambda>t. t \<noteq> Tile EMPTY_SPACE \<and> t \<noteq> Tile WALL) tiles"
      "\<not> count_list tiles (Tile WALL) \<ge> 4" by blast
    let ?es = "coordsOf EMPTY_SPACE ?around tiles"
    have e: "\<And>c. c \<in> set ?es \<Longrightarrow> readCoord (diagram s) c = Some (Tile EMPTY_SPACE)"
      using coordsOf_read[OF t(1)] by simp
    let ?a = "assignLoop recurse p (MonsterTile (hashOf mc)) ?es [0..<length ?es] s False"
    have ka: "kept fst s ?a" by (rule assignLoop_restores[OF r e])
    have ne: "?a \<noteq> Exit OutOfFuel"
      by (rule assignLoop_fuel[OF r e]) (use Cons.prems[of mc] True in auto)
    show ?thesis
    proof (cases ?a)
      case (Exit res)
      then show ?thesis using True t ne by simp
    next
      case (Next v)
      obtain s' sat' where v: "v = (s', sat')" by (cases v)
      then have "s' = s" using ka Next by simp
      then show ?thesis using True t Next v ih by simp
    qed
  qed
qed

lemma tryCombination_fuel:
  assumes "recurse s \<noteq> OutOfFuel"
  shows "tryCombination recurse p s sat \<noteq> Exit OutOfFuel"
  using assms
  by (cases "recurse s") (auto simp: tryCombination_def split: option.splits if_splits)

lemma combinationLoop_fuel:
  assumes r: "restores recurse"
    and e: "\<And>c. c \<in> set av \<Longrightarrow> readCoord (diagram s) c = Some (Tile EMPTY_SPACE)"
    and f: "\<And>combination s1. combination \<in> set combinations \<Longrightarrow>
              putTiles WALL 1 av combination s = Some s1 \<Longrightarrow> recurse s1 \<noteq> OutOfFuel"
  shows "combinationLoop recurse p av combinations s sat \<noteq> Exit OutOfFuel"
  using f
proof (induction combinations arbitrary: sat)
  case Nil
  then show ?case by simp
next
  case (Cons c combinations)
  have ih: "\<And>sat. combinationLoop recurse p av combinations s sat \<noteq> Exit OutOfFuel"
    by (rule Cons.IH) (use Cons.prems in auto)
  show ?case
  proof (cases "putTiles WALL 1 av c s")
    case None
    then show ?thesis by simp
  next
    case (Some s1)
    let ?attempt = "tryCombination recurse p s1 sat"
    have t: "kept fst s1 ?attempt"
      using tryCombination_restores[OF r, of s1 p sat] by auto
    have ne: "?attempt \<noteq> Exit OutOfFuel"
      by (rule tryCombination_fuel) (use Cons.prems[of c s1] Some in auto)
    show ?thesis
    proof (cases ?attempt)
      case (Exit res)
      then show ?thesis using Some ne by simp
    next
      case (Next v)
      obtain s2 sat' where v: "v = (s2, sat')" by (cases v)
      have s2: "s2 = s1" using t Next v by simp
      show ?thesis
      proof (cases "putTiles EMPTY_SPACE (- 1) av c s2")
        case None
        then show ?thesis using Some Next v by simp
      next
        case u: (Some s3)
        have "s3 = s"
        proof (rule putTiles_undo[OF Some])
          show "putTiles EMPTY_SPACE (- 1) av c s1 = Some s3" using u s2 by simp
        next
          fix j assume "j \<in> set c"
          then have "j < length av" using putTiles_index[OF Some] by simp
          then show "readCoord (diagram s) (av ! j) = Some (Tile EMPTY_SPACE)" using e by simp
        qed
        then show ?thesis using Some Next v u ih[of sat'] by simp
      qed
    qed
  qed
qed

lemma getCombinations_nonempty:
  assumes "0 < m" "m \<le> n" "c \<in> set (getCombinations m n)"
  shows "c \<noteq> []"
proof -
  have "c \<in> set (subsetsInOrder m [0..<n])" using assms(2,3) getCombinations_eq by simp
  then have "length c = m" using set_subsetsInOrder[of "[0..<n]" m] by simp
  then show ?thesis using assms(1) by auto
qed

lemma deficitLoop_fuel:
  assumes r: "restores recurse"
    and f: "\<And>av combination s1 j. j \<in> set combination \<Longrightarrow>
              readCoord (diagram s) (av ! j) = Some (Tile EMPTY_SPACE) \<Longrightarrow>
              putTiles WALL 1 av combination s = Some s1 \<Longrightarrow> recurse s1 \<noteq> OutOfFuel"
  shows "deficitLoop recurse p rows s \<noteq> Exit OutOfFuel"
proof (induction rows)
  case Nil
  then show ?case by simp
next
  case (Cons row_i rows)
  let ?collect = "collectAvailable p row_i [0..<length (cur_column_projection s)] s []"
  show ?case
  proof (cases "rowDifference p s row_i")
    case None
    then show ?thesis by (auto split: option.splits)
  next
    case d: (Some difference)
    show ?thesis
    proof (cases "difference \<le> 0")
      case True
      then show ?thesis using d Cons.IH by simp
    next
      case pos: False
      show ?thesis
      proof (cases ?collect)
        case None
        then show ?thesis using d pos by simp
      next
        case (Some sa)
        obtain s1 av where sa: "sa = (s1, av)" by (cases sa)
        have ca: "s1 = s \<and> (\<forall>c \<in> set av. c \<in> set [] \<or>
                    readCoord (diagram s) c = Some (Tile EMPTY_SPACE))"
          using collectAvailable_restores[of p row_i _ s "[]" s1 av] Some sa by simp
        then have s1: "s1 = s"
          and e: "\<And>c. c \<in> set av \<Longrightarrow> readCoord (diagram s) c = Some (Tile EMPTY_SPACE)"
          by auto
        show ?thesis
        proof (cases "int (length av) < difference")
          case True
          then show ?thesis using d pos Some sa by simp
        next
          case enough: False
          let ?combinations = "getCombinations (nat difference) (length av)"
          let ?loop = "combinationLoop recurse p av ?combinations s False"
          have k: "kept fst s ?loop" by (rule combinationLoop_restores[OF r e])
          have ne: "?loop \<noteq> Exit OutOfFuel"
          proof (rule combinationLoop_fuel[OF r e])
            fix combination s1'
            assume c: "combination \<in> set ?combinations"
              and pl: "putTiles WALL 1 av combination s = Some s1'"
            have "combination \<noteq> []"
              by (rule getCombinations_nonempty[OF _ _ c]) (use pos enough in auto)
            then obtain j where j: "j \<in> set combination" by (cases combination) auto
            then have "j < length av" using putTiles_index[OF pl] by simp
            then have "readCoord (diagram s) (av ! j) = Some (Tile EMPTY_SPACE)" using e by simp
            from f[OF j this pl] show "recurse s1' \<noteq> OutOfFuel" .
          qed
          show ?thesis
          proof (cases ?loop)
            case (Exit res)
            then show ?thesis using d pos Some sa s1 enough ne by simp
          next
            case (Next v)
            obtain s2 sat' where v: "v = (s2, sat')" by (cases v)
            then have "s2 = s" using k Next by simp
            then show ?thesis using d pos Some sa s1 enough Next v Cons.IH by simp
          qed
        qed
      qed
    qed
  qed
qed

lemma dfs_body_fuel:
  assumes r: "restores recurse"
    and f: "\<And>s'. searchMeasure p s' < searchMeasure p s \<Longrightarrow> recurse s' \<noteq> OutOfFuel"
  shows "dfs_body recurse p s \<noteq> OutOfFuel"
proof (cases "isSatisfiedProjections (cur_row_projection s) (cur_column_projection s)
         (row_projection p) (column_projection p)")
  case True
  then show ?thesis by (auto simp: dfs_body_def split: option.splits)
next
  case ns: False
  have kt: "kept (\<lambda>v. v) s (treasureLoop recurse p (treasure_coords p) s)"
    by (rule treasureLoop_restores[OF r])
  have tn: "treasureLoop recurse p (treasure_coords p) s \<noteq> Exit OutOfFuel"
    by (rule treasureLoop_fuel[OF r]) (rule f, rule measure_push_treasure)
  have km: "kept (\<lambda>v. v) s (monsterLoop recurse p (monster_coords p) s)"
    by (rule monsterLoop_restores[OF r])
  have mn: "monsterLoop recurse p (monster_coords p) s \<noteq> Exit OutOfFuel"
    by (rule monsterLoop_fuel[OF r]) (rule f, rule measure_push_monster)
  have kd: "kept (\<lambda>v. v) s (deficitLoop recurse p [0..<length (cur_row_projection s)] s)"
    by (rule deficitLoop_restores[OF r])
  have dn: "deficitLoop recurse p [0..<length (cur_row_projection s)] s \<noteq> Exit OutOfFuel"
    by (rule deficitLoop_fuel[OF r]) (rule f, rule measure_combination)
  show ?thesis
  proof (cases "treasureLoop recurse p (treasure_coords p) s")
    case (Exit res)
    then show ?thesis using ns tn by (simp add: dfs_body_def)
  next
    case (Next s1)
    then have s1: "s1 = s" using kt by simp
    show ?thesis
    proof (cases "monsterLoop recurse p (monster_coords p) s")
      case (Exit res)
      then show ?thesis using ns Next s1 mn by (simp add: dfs_body_def)
    next
      case n2: (Next s2)
      then have s2: "s2 = s" using km by simp
      show ?thesis
      proof (cases "deficitLoop recurse p [0..<length (cur_row_projection s)] s")
        case (Exit res)
        then show ?thesis using ns Next s1 n2 s2 dn by (simp add: dfs_body_def)
      next
        case n3: (Next s3)
        then show ?thesis using ns Next s1 n2 s2 by (simp add: dfs_body_def)
      qed
    qed
  qed
qed

lemma dfs_enough_fuel: "searchMeasure p s < fuel \<Longrightarrow> dfs fuel p s \<noteq> OutOfFuel"
proof (induction fuel arbitrary: s)
  case 0
  then show ?case by simp
next
  case (Suc fuel)
  have "dfs_body (dfs fuel p) p s \<noteq> OutOfFuel"
  proof (rule dfs_body_fuel[OF dfs_restores])
    fix s' assume "searchMeasure p s' < searchMeasure p s"
    then have "searchMeasure p s' < fuel" using Suc.prems by simp
    then show "dfs fuel p s' \<noteq> OutOfFuel" by (rule Suc.IH)
  qed
  then show ?case by simp
qed

text \<open>
  \<open>dfs\<close> is total: with fuel above \<open>searchMeasure\<close> a call returns or raises, and any
  further fuel gives the same result.
\<close>

theorem dfs_terminates:
  "dfs (Suc (searchMeasure p s)) p s \<noteq> OutOfFuel \<and>
   dfs (Suc (searchMeasure p s) + extra) p s = dfs (Suc (searchMeasure p s)) p s"
proof -
  have a: "dfs (Suc (searchMeasure p s)) p s \<noteq> OutOfFuel"
    by (rule dfs_enough_fuel) simp
  show ?thesis using a dfs_more_fuel[OF a, of extra] by simp
qed

section \<open>The empty puzzle\<close>

text \<open>
  Claim C3 as stated fails: on the puzzle with no walls asked for and an empty board,
  \<open>dfs\<close> returns false.
\<close>

theorem empty_puzzle_not_solved:
  "solve 1 noWalls noWalls emptyRaw = Returned False (initialState emptyBoard)"
  by code_simp

lemma empty_board_facts:
  "augmentRawDiagram emptyRaw = Some emptyBoard"
  "getTreasureAndMonsterCoords emptyBoard = Some ([], [])"
  "isSatisfiedProjections noWalls noWalls noWalls noWalls"
  "isSolved [] [] emptyBoard = Some False"
  "checkHallways emptyBoard [] = Some False"
  "readTiles emptyBoard interiorCoords = Some (replicate 64 (Tile EMPTY_SPACE))"
  by code_simp+

text \<open>
  Claim C3, amended. For the input whose projections are all zero and whose grid holds
  only Empty tiles, \<open>dfs\<close> returns false with any fuel that allows a first call: the
  projections are satisfied at once, and \<open>isSolved\<close> rejects the board because its
  hallway check finds a 2 x 2 block of Empty tiles. The interior is left all Empty.
\<close>

theorem empty_puzzle_returns_false:
  "solve (Suc fuel) noWalls noWalls emptyRaw = Returned False (initialState emptyBoard) \<and>
   checkHallways emptyBoard [] = Some False \<and>
   readTiles emptyBoard interiorCoords = Some (replicate 64 (Tile EMPTY_SPACE))"
  using empty_board_facts
  by (simp add: solve_def dfs_body_def initialState_def noWalls_def)

section \<open>Counters and walls of the input\<close>

text \<open>
  The number of Wall tiles of a row, and of a column, inside the border.
\<close>

definition rowWalls :: "Diagram \<Rightarrow> int \<Rightarrow> nat" where
  "rowWalls d x = length (filter (\<lambda>y. readTile d x y = Some (Tile WALL)) [1..SIDE_LENGTH - 2])"

definition columnWalls :: "Diagram \<Rightarrow> int \<Rightarrow> nat" where
  "columnWalls d y = length (filter (\<lambda>x. readTile d x y = Some (Tile WALL)) [1..SIDE_LENGTH - 2])"

text \<open>
  The invariant of the counters: both arrays have one entry for each row and column of
  the puzzle, and each entry is the number of Wall tiles of its row or column.
\<close>

definition countersMatch :: "dfs_state \<Rightarrow> bool" where
  "countersMatch s =
     (length (cur_row_projection s) = RAW_SIDE_LENGTH \<and>
      length (cur_column_projection s) = RAW_SIDE_LENGTH \<and>
      list_all (\<lambda>i. cur_row_projection s ! i = int (rowWalls (diagram s) (int i + 1)))
        [0..<RAW_SIDE_LENGTH] \<and>
      list_all (\<lambda>i. cur_column_projection s ! i = int (columnWalls (diagram s) (int i + 1)))
        [0..<RAW_SIDE_LENGTH])"

text \<open>
  \<open>wallsPlaced s s1\<close>: the state \<open>s1\<close> is \<open>s\<close> after walls were put on some of its Empty
  tiles, each tile once.
\<close>

definition wallsPlaced :: "dfs_state \<Rightarrow> dfs_state \<Rightarrow> bool" where
  "wallsPlaced s s1 =
     (\<exists>coords idxs. putTiles WALL 1 coords idxs s = Some s1 \<and>
        distinct (map ((!) coords) idxs) \<and>
        list_all (\<lambda>j. readCoord (diagram s) (coords ! j) = Some (Tile EMPTY_SPACE)) idxs)"

lemma length_filter_one_more:
  assumes "distinct xs" "a \<in> set xs" "\<not> P a"
  shows "length (filter (\<lambda>y. y = a \<or> P y) xs) = Suc (length (filter P xs))"
  using assms
proof (induction xs)
  case Nil
  then show ?case by simp
next
  case (Cons x xs)
  show ?case
  proof (cases "x = a")
    case True
    then have "a \<notin> set xs" using Cons.prems(1) by simp
    then have "filter (\<lambda>y. y = a \<or> P y) xs = filter P xs"
      by (intro filter_cong) auto
    then show ?thesis using True Cons.prems(3) by simp
  next
    case False
    then show ?thesis using Cons by auto
  qed
qed

lemma putTile_wall_counts:
  assumes pl: "putTile WALL 1 c s = Some s1"
    and e: "readCoord (diagram s) c = Some (Tile EMPTY_SPACE)"
    and len: "length (cur_row_projection s) = 8" "length (cur_column_projection s) = 8"
  shows "rowWalls (diagram s1) x = rowWalls (diagram s) x + (if x = cx c then 1 else 0)"
    and "columnWalls (diagram s1) y = columnWalls (diagram s) y + (if y = cy c then 1 else 0)"
proof -
  have rd: "\<And>x y. readTile (diagram s1) x y = Some (Tile WALL) \<longleftrightarrow>
      (x = cx c \<and> y = cy c) \<or> readTile (diagram s) x y = Some (Tile WALL)"
    using putTile_reads(1)[OF pl] by (cases c) auto
  have ne: "readTile (diagram s) (cx c) (cy c) \<noteq> Some (Tile WALL)"
    using e by (simp add: readCoord_def)
  have "addAt (cur_row_projection s) (cx c - 1) 1 \<noteq> None"
    "addAt (cur_column_projection s) (cy c - 1) 1 \<noteq> None"
    using pl by (auto simp: putTile_def split: option.splits)
  then have rng: "1 \<le> cx c" "cx c \<le> 8" "1 \<le> cy c" "cy c \<le> 8"
    using len by (auto simp: addAt_def inIndex_def split: if_splits)
  show "rowWalls (diagram s1) x = rowWalls (diagram s) x + (if x = cx c then 1 else 0)"
  proof (cases "x = cx c")
    case True
    have "filter (\<lambda>y. readTile (diagram s1) x y = Some (Tile WALL)) [1..8] =
          filter (\<lambda>y. y = cy c \<or> readTile (diagram s) x y = Some (Tile WALL)) [1..8]"
      using rd True by (intro filter_cong) auto
    moreover have "length (filter (\<lambda>y. y = cy c \<or> readTile (diagram s) x y = Some (Tile WALL)) [1..8])
        = Suc (length (filter (\<lambda>y. readTile (diagram s) x y = Some (Tile WALL)) [1..8]))"
      by (rule length_filter_one_more) (use rng ne True in auto)
    ultimately show ?thesis using True by (simp add: rowWalls_def SIDE_LENGTH_def)
  next
    case False
    then have "filter (\<lambda>y. readTile (diagram s1) x y = Some (Tile WALL)) [1..8] =
          filter (\<lambda>y. readTile (diagram s) x y = Some (Tile WALL)) [1..8]"
      using rd by (intro filter_cong) auto
    then show ?thesis using False by (simp add: rowWalls_def SIDE_LENGTH_def)
  qed
  show "columnWalls (diagram s1) y = columnWalls (diagram s) y + (if y = cy c then 1 else 0)"
  proof (cases "y = cy c")
    case True
    have "filter (\<lambda>x. readTile (diagram s1) x y = Some (Tile WALL)) [1..8] =
          filter (\<lambda>x. x = cx c \<or> readTile (diagram s) x y = Some (Tile WALL)) [1..8]"
      using rd True by (intro filter_cong) auto
    moreover have "length (filter (\<lambda>x. x = cx c \<or> readTile (diagram s) x y = Some (Tile WALL)) [1..8])
        = Suc (length (filter (\<lambda>x. readTile (diagram s) x y = Some (Tile WALL)) [1..8]))"
      by (rule length_filter_one_more) (use rng ne True in auto)
    ultimately show ?thesis using True by (simp add: columnWalls_def SIDE_LENGTH_def)
  next
    case False
    then have "filter (\<lambda>x. readTile (diagram s1) x y = Some (Tile WALL)) [1..8] =
          filter (\<lambda>x. readTile (diagram s) x y = Some (Tile WALL)) [1..8]"
      using rd by (intro filter_cong) auto
    then show ?thesis using False by (simp add: columnWalls_def SIDE_LENGTH_def)
  qed
qed

lemma putTile_countersMatch:
  assumes pl: "putTile WALL 1 c s = Some s1"
    and e: "readCoord (diagram s) c = Some (Tile EMPTY_SPACE)"
    and m: "countersMatch s"
  shows "countersMatch s1"
proof -
  have len: "length (cur_row_projection s) = 8" "length (cur_column_projection s) = 8"
    using m by (simp_all add: countersMatch_def RAW_SIDE_LENGTH_def)
  have rows: "\<And>i. i < 8 \<Longrightarrow> cur_row_projection s ! i = int (rowWalls (diagram s) (int i + 1))"
    and cols: "\<And>i. i < 8 \<Longrightarrow>
        cur_column_projection s ! i = int (columnWalls (diagram s) (int i + 1))"
    using m by (simp_all add: countersMatch_def RAW_SIDE_LENGTH_def list_all_iff)
  have r1: "\<And>i. readIndex (cur_row_projection s1) i =
      map_option (\<lambda>v. v + (if i = cx c - 1 then 1 else 0)) (readIndex (cur_row_projection s) i)"
    and c1: "\<And>i. readIndex (cur_column_projection s1) i =
      map_option (\<lambda>v. v + (if i = cy c - 1 then 1 else 0))
        (readIndex (cur_column_projection s) i)"
    using putTile_reads(2,3)[OF pl] by auto
  have l1: "length (cur_row_projection s1) = 8"
  proof -
    have "readIndex (cur_row_projection s1) 7 \<noteq> None" "readIndex (cur_row_projection s1) 8 = None"
      using r1[of 7] r1[of 8] len by (auto simp: readIndex_def inIndex_def)
    then show ?thesis by (auto simp: readIndex_def inIndex_def split: if_splits)
  qed
  have l2: "length (cur_column_projection s1) = 8"
  proof -
    have "readIndex (cur_column_projection s1) 7 \<noteq> None"
      "readIndex (cur_column_projection s1) 8 = None"
      using c1[of 7] c1[of 8] len by (auto simp: readIndex_def inIndex_def)
    then show ?thesis by (auto simp: readIndex_def inIndex_def split: if_splits)
  qed
  have rows1: "cur_row_projection s1 ! i = int (rowWalls (diagram s1) (int i + 1))"
    if "i < 8" for i
  proof -
    have "readIndex (cur_row_projection s1) (int i) = Some (cur_row_projection s1 ! i)"
      "readIndex (cur_row_projection s) (int i) = Some (cur_row_projection s ! i)"
      using that l1 len by (simp_all add: readIndex_def inIndex_def)
    then have "cur_row_projection s1 ! i =
        cur_row_projection s ! i + (if int i = cx c - 1 then 1 else 0)"
      using r1[of "int i"] by simp
    then show ?thesis
      using rows[OF that] putTile_wall_counts(1)[OF pl e len, of "int i + 1"] by auto
  qed
  have cols1: "cur_column_projection s1 ! i = int (columnWalls (diagram s1) (int i + 1))"
    if "i < 8" for i
  proof -
    have "readIndex (cur_column_projection s1) (int i) = Some (cur_column_projection s1 ! i)"
      "readIndex (cur_column_projection s) (int i) = Some (cur_column_projection s ! i)"
      using that l2 len by (simp_all add: readIndex_def inIndex_def)
    then have "cur_column_projection s1 ! i =
        cur_column_projection s ! i + (if int i = cy c - 1 then 1 else 0)"
      using c1[of "int i"] by simp
    then show ?thesis
      using cols[OF that] putTile_wall_counts(2)[OF pl e len, of "int i + 1"] by auto
  qed
  show ?thesis
    using l1 l2 rows1 cols1 by (simp add: countersMatch_def RAW_SIDE_LENGTH_def list_all_iff)
qed

lemma putTiles_countersMatch:
  assumes "putTiles WALL 1 coords idxs s = Some s1"
    and "distinct (map ((!) coords) idxs)"
    and "\<And>j. j \<in> set idxs \<Longrightarrow> readCoord (diagram s) (coords ! j) = Some (Tile EMPTY_SPACE)"
    and "countersMatch s"
  shows "countersMatch s1"
  using assms
proof (induction idxs arbitrary: s)
  case Nil
  then show ?case by simp
next
  case (Cons j idxs)
  obtain s' where a: "putTile WALL 1 (coords ! j) s = Some s'"
    and b: "putTiles WALL 1 coords idxs s' = Some s1"
    using Cons.prems(1) by (auto split: if_splits option.splits)
  have m': "countersMatch s'"
    by (rule putTile_countersMatch[OF a _ Cons.prems(4)]) (use Cons.prems(3) in simp)
  have e': "readCoord (diagram s') (coords ! k) = Some (Tile EMPTY_SPACE)" if "k \<in> set idxs" for k
  proof -
    have "coords ! j \<notin> (!) coords ` set idxs" using Cons.prems(2) by simp
    then have "coords ! k \<noteq> coords ! j" using that by (metis imageI)
    then show ?thesis
      using putTile_reads(1)[OF a, of "cx (coords ! k)" "cy (coords ! k)"] Cons.prems(3)[of k] that
      by (simp add: readCoord_def)
  qed
  show ?case by (rule Cons.IH[OF b _ e' m']) (use Cons.prems(2) in auto)
qed

lemma wallsPlaced_countersMatch:
  "wallsPlaced s s1 \<Longrightarrow> countersMatch s \<Longrightarrow> countersMatch s1"
  unfolding wallsPlaced_def
  using putTiles_countersMatch by (auto simp: list_all_iff)

lemma pushHandled_countersMatch [simp]:
  "countersMatch (pushHandled h s) = countersMatch s"
  by (cases h) (simp_all add: countersMatch_def)

text \<open>
  A loop that leaves \<open>dfs\<close> with the result true does so because a recursive call,
  made after walls were put on Empty tiles, returned true.
\<close>

lemma distinct_coordsOf: "distinct cs \<Longrightarrow> distinct (coordsOf t cs tiles)"
proof -
  assume d: "distinct cs"
  have "distinct (map fst (zip cs tiles))" using d by (simp add: map_fst_zip_take)
  then show ?thesis unfolding coordsOf_def by (rule distinct_map_filter)
qed

lemma distinct_getTRoomOuterTileCoords: "distinct (getTRoomOuterTileCoords x y)"
  by (simp add: getTRoomOuterTileCoords_def)

lemma distinct_get4DirectionCoords: "distinct (get4DirectionCoords x y)"
  by (simp add: get4DirectionCoords_def)

lemma placeAllButOne_distinct:
  assumes "distinct (map fst rest)"
    and "placeAllButOne p i rest s placed0 = Some (s1, placed)"
  shows "\<exists>new. placed = placed0 @ new \<and> distinct new \<and> set new \<subseteq> fst ` set rest"
  using assms
proof (induction rest arbitrary: s placed0)
  case Nil
  then show ?case by simp
next
  case (Cons jc rest)
  obtain j c where jc: "jc = (j, c)" by (cases jc)
  have d: "distinct (map fst rest)" "j \<notin> fst ` set rest" using Cons.prems(1) jc by auto
  show ?case
  proof (cases "j \<noteq> i \<and> isTilePlacable (cx c - 1) (cy c - 1)
                   (cur_row_projection s) (cur_column_projection s)
                   (row_projection p) (column_projection p)")
    case True
    then obtain s' where b: "placeAllButOne p i rest s' (placed0 @ [j]) = Some (s1, placed)"
      using Cons.prems(2) jc by (auto split: option.splits)
    from Cons.IH[OF d(1) b] obtain new where
      n: "placed = (placed0 @ [j]) @ new" "distinct new" "set new \<subseteq> fst ` set rest"
      by blast
    have "placed = placed0 @ (j # new)" using n(1) by simp
    moreover have "distinct (j # new)" using n(2,3) d(2) by auto
    moreover have "set (j # new) \<subseteq> fst ` set (jc # rest)" using n(3) jc by auto
    ultimately show ?thesis by blast
  next
    case False
    show ?thesis
    proof (cases "j = i")
      case True
      then have b: "placeAllButOne p i rest s placed0 = Some (s1, placed)"
        using Cons.prems(2) jc by simp
      from Cons.IH[OF d(1) b] show ?thesis by auto
    next
      case F2: False
      then have "placed = placed0" using Cons.prems(2) jc False by auto
      then show ?thesis by simp
    qed
  qed
qed

lemma distinct_map_nth:
  assumes "distinct xs" "distinct idxs" "\<And>j. j \<in> set idxs \<Longrightarrow> j < length xs"
  shows "distinct (map ((!) xs) idxs)"
proof -
  have "inj_on ((!) xs) (set idxs)"
    using assms(1,3) by (auto simp: inj_on_def nth_eq_iff_index_eq)
  then show ?thesis using assms(2) by (simp add: distinct_map)
qed

lemma tryAssignment_true:
  "tryAssignment recurse p h np ne s sat = Exit (Returned True s') \<Longrightarrow>
   recurse (pushHandled h s) = Returned True s'"
  by (cases "recurse (pushHandled h s)")
     (auto simp: tryAssignment_def split: option.splits if_splits)

lemma assignLoop_true:
  assumes r: "restores recurse"
    and e: "\<And>c. c \<in> set es \<Longrightarrow> readCoord (diagram s) c = Some (Tile EMPTY_SPACE)"
    and d: "distinct es"
  shows "assignLoop recurse p h es idxs s sat = Exit (Returned True s') \<Longrightarrow>
         \<exists>s1. wallsPlaced s s1 \<and> recurse (pushHandled h s1) = Returned True s'"
proof (induction idxs arbitrary: sat)
  case Nil
  then show ?case by simp
next
  case (Cons i idxs)
  show ?case
  proof (cases "placeAllButOne p i (enumerate 0 es) s []")
    case None
    then show ?thesis using Cons.prems by simp
  next
    case (Some sp)
    obtain s1 placed where sp: "sp = (s1, placed)" by (cases sp)
    have en: "\<And>j c. (j, c) \<in> set (enumerate 0 es) \<Longrightarrow> j < length es \<and> es ! j = c"
      by (auto simp: in_set_enumerate_eq)
    have res: "placeAllButOne p i (enumerate 0 es) s [] = Some (s1, placed)"
      using Some sp by simp
    from placeAllButOne_putTiles[OF en res]
    have pl: "putTiles WALL 1 es placed s = Some s1" by auto
    have "distinct (map fst (enumerate 0 es))" by simp
    from placeAllButOne_distinct[OF this res] have dp: "distinct placed" by auto
    have idx: "\<And>j. j \<in> set placed \<Longrightarrow> j < length es" using putTiles_index[OF pl] by simp
    have wp: "wallsPlaced s s1"
      unfolding wallsPlaced_def
    proof (intro exI conjI)
      show "putTiles WALL 1 es placed s = Some s1" by (rule pl)
      show "distinct (map ((!) es) placed)" by (rule distinct_map_nth[OF d dp idx])
      show "list_all (\<lambda>j. readCoord (diagram s) (es ! j) = Some (Tile EMPTY_SPACE)) placed"
        using e idx by (simp add: list_all_iff)
    qed
    let ?attempt = "tryAssignment recurse p h (length placed) (length es) s1 sat"
    have t: "kept fst s1 ?attempt"
      using tryAssignment_restores[OF r, of s1 p h "length placed" "length es" sat] by auto
    show ?thesis
    proof (cases ?attempt)
      case (Exit res)
      then have "res = Returned True s'" using Cons.prems Some sp by simp
      then have "recurse (pushHandled h s1) = Returned True s'"
        using Exit tryAssignment_true by simp
      then show ?thesis using wp by blast
    next
      case (Next v)
      obtain s2 sat' where v: "v = (s2, sat')" by (cases v)
      have s2: "s2 = s1" using t Next v by simp
      show ?thesis
      proof (cases "putTiles EMPTY_SPACE (- 1) es placed s2")
        case None
        then show ?thesis using Cons.prems Some sp Next v by simp
      next
        case u: (Some s3)
        have "s3 = s"
        proof (rule putTiles_undo[OF pl])
          show "putTiles EMPTY_SPACE (- 1) es placed s1 = Some s3" using u s2 by simp
        next
          fix j assume "j \<in> set placed"
          then show "readCoord (diagram s) (es ! j) = Some (Tile EMPTY_SPACE)"
            using e idx by simp
        qed
        then have "assignLoop recurse p h es idxs s sat' = Exit (Returned True s')"
          using Cons.prems Some sp Next v u by simp
        then show ?thesis by (rule Cons.IH)
      qed
    qed
  qed
qed

lemma roomLoop_true:
  assumes r: "restores recurse"
  shows "roomLoop recurse p hash_id lts s sat = Exit (Returned True s') \<Longrightarrow>
         \<exists>h s1. wallsPlaced s s1 \<and> recurse (pushHandled h s1) = Returned True s'"
proof (induction lts arbitrary: sat)
  case Nil
  then show ?case by simp
next
  case (Cons lt lts)
  let ?outer = "getTRoomOuterTileCoords (cx lt) (cy lt)"
  show ?case
  proof (cases "isTRoomLTCoordAvailable (cx lt) (cy lt) \<and>
                isTRoomTilesAvailable (cx lt) (cy lt) (diagram s) = Some True \<and>
                (\<exists>tiles. readTiles (diagram s) ?outer = Some tiles \<and>
                   \<not> list_ex (\<lambda>t. t \<noteq> Tile WALL \<and> t \<noteq> Tile EMPTY_SPACE) tiles \<and>
                   \<not> length (coordsOf EMPTY_SPACE ?outer tiles) < 1)")
    case False
    then have "roomLoop recurse p hash_id lts s sat = Exit (Returned True s')"
      using Cons.prems by (auto split: option.splits if_splits)
    then show ?thesis by (rule Cons.IH)
  next
    case True
    then obtain tiles where t: "readTiles (diagram s) ?outer = Some tiles"
      "\<not> list_ex (\<lambda>t. t \<noteq> Tile WALL \<and> t \<noteq> Tile EMPTY_SPACE) tiles"
      "\<not> length (coordsOf EMPTY_SPACE ?outer tiles) < 1" by blast
    let ?es = "coordsOf EMPTY_SPACE ?outer tiles"
    have e: "\<And>c. c \<in> set ?es \<Longrightarrow> readCoord (diagram s) c = Some (Tile EMPTY_SPACE)"
      using coordsOf_read[OF t(1)] by simp
    have d: "distinct ?es" by (rule distinct_coordsOf[OF distinct_getTRoomOuterTileCoords])
    let ?a = "assignLoop recurse p (TreasureRoom hash_id lt) ?es [0..<length ?es] s sat"
    have ka: "kept fst s ?a" by (rule assignLoop_restores[OF r e])
    show ?thesis
    proof (cases ?a)
      case (Exit res)
      then have "?a = Exit (Returned True s')" using Cons.prems True t by simp
      from assignLoop_true[OF r e d this] show ?thesis by blast
    next
      case (Next v)
      obtain s2 sat' where v: "v = (s2, sat')" by (cases v)
      then have "s2 = s" using ka Next by simp
      then have "roomLoop recurse p hash_id lts s sat' = Exit (Returned True s')"
        using Cons.prems True t Next v by simp
      then show ?thesis by (rule Cons.IH)
    qed
  qed
qed

lemma treasureLoop_true:
  assumes r: "restores recurse"
  shows "treasureLoop recurse p tcs s = Exit (Returned True s') \<Longrightarrow>
         \<exists>h s1. wallsPlaced s s1 \<and> recurse (pushHandled h s1) = Returned True s'"
proof (induction tcs)
  case Nil
  then show ?case by simp
next
  case (Cons tc tcs)
  show ?case
  proof (cases "readCoord (diagram s) tc = Some (Tile TREASURE) \<and>
                hashOf tc \<notin> set (handled_treasure_ids s)")
    case False
    then have "treasureLoop recurse p tcs s = Exit (Returned True s')"
      using Cons.prems by (auto split: option.splits if_splits)
    then show ?thesis by (rule Cons.IH)
  next
    case True
    let ?r = "roomLoop recurse p (hashOf tc) (getTRoomLTCoords (cx tc) (cy tc)) s False"
    have k: "kept fst s ?r" by (rule roomLoop_restores[OF r])
    show ?thesis
    proof (cases ?r)
      case (Exit res)
      then have "?r = Exit (Returned True s')" using Cons.prems True by simp
      then show ?thesis by (rule roomLoop_true[OF r])
    next
      case (Next v)
      obtain s2 sat' where v: "v = (s2, sat')" by (cases v)
      then have "s2 = s" using k Next by simp
      then have "treasureLoop recurse p tcs s = Exit (Returned True s')"
        using Cons.prems True Next v by (auto split: if_splits)
      then show ?thesis by (rule Cons.IH)
    qed
  qed
qed

lemma monsterLoop_true:
  assumes r: "restores recurse"
  shows "monsterLoop recurse p mcs s = Exit (Returned True s') \<Longrightarrow>
         \<exists>h s1. wallsPlaced s s1 \<and> recurse (pushHandled h s1) = Returned True s'"
proof (induction mcs)
  case Nil
  then show ?case by simp
next
  case (Cons mc mcs)
  let ?around = "get4DirectionCoords (cx mc) (cy mc)"
  show ?case
  proof (cases "readCoord (diagram s) mc = Some (Tile MONSTER) \<and>
                hashOf mc \<notin> set (handled_monster_ids s)")
    case False
    then have "monsterLoop recurse p mcs s = Exit (Returned True s')"
      using Cons.prems by (auto split: option.splits if_splits)
    then show ?thesis by (rule Cons.IH)
  next
    case True
    show ?thesis
    proof (cases "readTiles (diagram s) ?around")
      case None
      then show ?thesis using Cons.prems True by simp
    next
      case rt: (Some tiles)
      let ?es = "coordsOf EMPTY_SPACE ?around tiles"
      have e: "\<And>c. c \<in> set ?es \<Longrightarrow> readCoord (diagram s) c = Some (Tile EMPTY_SPACE)"
        using coordsOf_read[OF rt] by simp
      have d: "distinct ?es" by (rule distinct_coordsOf[OF distinct_get4DirectionCoords])
      let ?a = "assignLoop recurse p (MonsterTile (hashOf mc)) ?es [0..<length ?es] s False"
      have ka: "kept fst s ?a" by (rule assignLoop_restores[OF r e])
      show ?thesis
      proof (cases "list_ex (\<lambda>t. t \<noteq> Tile EMPTY_SPACE \<and> t \<noteq> Tile WALL) tiles \<or>
                    count_list tiles (Tile WALL) \<ge> 4")
        case bad: True
        then show ?thesis using Cons.prems True rt by (auto split: if_splits)
      next
        case ok: False
        show ?thesis
        proof (cases ?a)
          case (Exit res)
          then have "?a = Exit (Returned True s')" using Cons.prems True rt ok by simp
          from assignLoop_true[OF r e d this] show ?thesis by blast
        next
          case (Next v)
          obtain s2 sat' where v: "v = (s2, sat')" by (cases v)
          then have "s2 = s" using ka Next by simp
          then have "monsterLoop recurse p mcs s = Exit (Returned True s')"
            using Cons.prems True rt ok Next v by (auto split: if_splits)
          then show ?thesis by (rule Cons.IH)
        qed
      qed
    qed
  qed
qed

lemma collectAvailable_distinct:
  assumes "collectAvailable p row_i columns s acc = Some (s', available)"
    and "distinct columns" and "distinct acc"
    and "\<And>c k. c \<in> set acc \<Longrightarrow> k \<in> set columns \<Longrightarrow> c \<noteq> Coord (int row_i + 1) (int k + 1)"
  shows "distinct available"
  using assms
proof (induction columns arbitrary: s acc)
  case Nil
  then show ?case by simp
next
  case (Cons column_i columns)
  let ?c = "Coord (int row_i + 1) (int column_i + 1)"
  have dc: "distinct columns" "column_i \<notin> set columns" using Cons.prems(2) by auto
  have keep: "\<And>c k. c \<in> set acc \<Longrightarrow> k \<in> set columns \<Longrightarrow>
      c \<noteq> Coord (int row_i + 1) (int k + 1)"
    using Cons.prems(4) by auto
  have skip: "distinct available"
    if "collectAvailable p row_i columns s2 acc = Some (s', available)" for s2
    by (rule Cons.IH[OF that dc(1) Cons.prems(3) keep])
  have take: "distinct available"
    if "collectAvailable p row_i columns s2 (acc @ [?c]) = Some (s', available)" for s2
  proof (rule Cons.IH[OF that dc(1)])
    show "distinct (acc @ [?c])" using Cons.prems(3) Cons.prems(4)[of ?c column_i] by auto
    show "\<And>c k. c \<in> set (acc @ [?c]) \<Longrightarrow> k \<in> set columns \<Longrightarrow>
        c \<noteq> Coord (int row_i + 1) (int k + 1)"
      using keep dc(2) by auto
  qed
  show ?case using Cons.prems(1) skip take
    by (auto split: if_splits option.splits)
qed

lemma tryCombination_true:
  "tryCombination recurse p s sat = Exit (Returned True s') \<Longrightarrow> recurse s = Returned True s'"
  by (cases "recurse s") (auto simp: tryCombination_def split: option.splits if_splits)

lemma combinationLoop_true:
  assumes r: "restores recurse"
    and e: "\<And>c. c \<in> set av \<Longrightarrow> readCoord (diagram s) c = Some (Tile EMPTY_SPACE)"
    and d: "distinct av"
  shows "(\<And>c. c \<in> set combinations \<Longrightarrow> distinct c) \<Longrightarrow>
         combinationLoop recurse p av combinations s sat = Exit (Returned True s') \<Longrightarrow>
         \<exists>s1. wallsPlaced s s1 \<and> recurse s1 = Returned True s'"
proof (induction combinations arbitrary: sat)
  case Nil
  then show ?case by simp
next
  case (Cons c combinations)
  have dc: "distinct c" using Cons.prems(1) by simp
  show ?case
  proof (cases "putTiles WALL 1 av c s")
    case None
    then show ?thesis using Cons.prems(2) by simp
  next
    case (Some s1)
    have idx: "\<And>j. j \<in> set c \<Longrightarrow> j < length av" using putTiles_index[OF Some] by simp
    have wp: "wallsPlaced s s1"
      unfolding wallsPlaced_def
    proof (intro exI conjI)
      show "putTiles WALL 1 av c s = Some s1" by (rule Some)
      show "distinct (map ((!) av) c)" by (rule distinct_map_nth[OF d dc idx])
      show "list_all (\<lambda>j. readCoord (diagram s) (av ! j) = Some (Tile EMPTY_SPACE)) c"
        using e idx by (simp add: list_all_iff)
    qed
    let ?attempt = "tryCombination recurse p s1 sat"
    have t: "kept fst s1 ?attempt"
      using tryCombination_restores[OF r, of s1 p sat] by auto
    show ?thesis
    proof (cases ?attempt)
      case (Exit res)
      then have "res = Returned True s'" using Cons.prems(2) Some by simp
      then have "recurse s1 = Returned True s'" using Exit tryCombination_true by simp
      then show ?thesis using wp by blast
    next
      case (Next v)
      obtain s2 sat' where v: "v = (s2, sat')" by (cases v)
      have s2: "s2 = s1" using t Next v by simp
      show ?thesis
      proof (cases "putTiles EMPTY_SPACE (- 1) av c s2")
        case None
        then show ?thesis using Cons.prems(2) Some Next v by simp
      next
        case u: (Some s3)
        have "s3 = s"
        proof (rule putTiles_undo[OF Some])
          show "putTiles EMPTY_SPACE (- 1) av c s1 = Some s3" using u s2 by simp
        next
          fix j assume "j \<in> set c"
          then show "readCoord (diagram s) (av ! j) = Some (Tile EMPTY_SPACE)"
            using e idx by simp
        qed
        then have "combinationLoop recurse p av combinations s sat' = Exit (Returned True s')"
          using Cons.prems(2) Some Next v u by simp
        then show ?thesis by (rule Cons.IH[rotated]) (use Cons.prems(1) in simp)
      qed
    qed
  qed
qed

lemma getCombinations_distinct:
  assumes "m \<le> n" "c \<in> set (getCombinations m n)"
  shows "distinct c"
proof -
  have "c \<in> set (subsetsInOrder m [0..<n])" using assms getCombinations_eq by simp
  then have "sorted_wrt (<) c" using set_subsetsInOrder[of "[0..<n]" m] by simp
  then show ?thesis using strict_sorted_iff by blast
qed

lemma deficitLoop_true:
  assumes r: "restores recurse"
  shows "deficitLoop recurse p rows s = Exit (Returned True s') \<Longrightarrow>
         \<exists>s1. wallsPlaced s s1 \<and> recurse s1 = Returned True s'"
proof (induction rows)
  case Nil
  then show ?case by simp
next
  case (Cons row_i rows)
  let ?collect = "collectAvailable p row_i [0..<length (cur_column_projection s)] s []"
  show ?case
  proof (cases "rowDifference p s row_i")
    case None
    then show ?thesis using Cons.prems by (auto split: option.splits)
  next
    case d: (Some difference)
    show ?thesis
    proof (cases "difference \<le> 0")
      case True
      then have "deficitLoop recurse p rows s = Exit (Returned True s')"
        using Cons.prems d by simp
      then show ?thesis by (rule Cons.IH)
    next
      case pos: False
      show ?thesis
      proof (cases ?collect)
        case None
        then show ?thesis using Cons.prems d pos by simp
      next
        case (Some sa)
        obtain s1 av where sa: "sa = (s1, av)" by (cases sa)
        have col: "?collect = Some (s1, av)" using Some sa by simp
        have ca: "s1 = s \<and> (\<forall>c \<in> set av. c \<in> set [] \<or>
                    readCoord (diagram s) c = Some (Tile EMPTY_SPACE))"
          by (rule collectAvailable_restores[OF col])
        then have s1: "s1 = s"
          and e: "\<And>c. c \<in> set av \<Longrightarrow> readCoord (diagram s) c = Some (Tile EMPTY_SPACE)"
          by auto
        have dav: "distinct av"
          by (rule collectAvailable_distinct[OF col]) simp_all
        show ?thesis
        proof (cases "int (length av) < difference")
          case True
          then show ?thesis using Cons.prems d pos Some sa by simp
        next
          case enough: False
          let ?combinations = "getCombinations (nat difference) (length av)"
          let ?loop = "combinationLoop recurse p av ?combinations s False"
          have k: "kept fst s ?loop" by (rule combinationLoop_restores[OF r e])
          have dc: "\<And>c. c \<in> set ?combinations \<Longrightarrow> distinct c"
            by (rule getCombinations_distinct[rotated]) (use enough in auto)
          show ?thesis
          proof (cases ?loop)
            case (Exit res)
            then have "?loop = Exit (Returned True s')"
              using Cons.prems d pos Some sa s1 enough by simp
            from combinationLoop_true[OF r e dav dc this] show ?thesis by blast
          next
            case (Next v)
            obtain s2 sat' where v: "v = (s2, sat')" by (cases v)
            then have "s2 = s" using k Next by simp
            then have "deficitLoop recurse p rows s = Exit (Returned True s')"
              using Cons.prems d pos Some sa s1 enough Next v by (auto split: if_splits)
            then show ?thesis by (rule Cons.IH)
          qed
        qed
      qed
    qed
  qed
qed

lemma dfs_body_true:
  assumes r: "restores recurse"
    and res: "dfs_body recurse p s = Returned True s'"
  shows "(isSatisfiedProjections (cur_row_projection s) (cur_column_projection s)
            (row_projection p) (column_projection p) \<and> s' = s) \<or>
         (\<exists>s1. wallsPlaced s s1 \<and>
            (recurse s1 = Returned True s' \<or>
             (\<exists>h. recurse (pushHandled h s1) = Returned True s')))"
proof (cases "isSatisfiedProjections (cur_row_projection s) (cur_column_projection s)
         (row_projection p) (column_projection p)")
  case True
  then show ?thesis using res by (auto simp: dfs_body_def split: option.splits)
next
  case ns: False
  have kt: "kept (\<lambda>v. v) s (treasureLoop recurse p (treasure_coords p) s)"
    by (rule treasureLoop_restores[OF r])
  have km: "kept (\<lambda>v. v) s (monsterLoop recurse p (monster_coords p) s)"
    by (rule monsterLoop_restores[OF r])
  have kd: "kept (\<lambda>v. v) s (deficitLoop recurse p [0..<length (cur_row_projection s)] s)"
    by (rule deficitLoop_restores[OF r])
  show ?thesis
  proof (cases "treasureLoop recurse p (treasure_coords p) s")
    case (Exit r1)
    then have "treasureLoop recurse p (treasure_coords p) s = Exit (Returned True s')"
      using res ns by (simp add: dfs_body_def)
    from treasureLoop_true[OF r this] show ?thesis by blast
  next
    case (Next s1)
    then have s1: "s1 = s" using kt by simp
    show ?thesis
    proof (cases "length (handled_treasure_ids s) \<noteq> length (treasure_coords p)")
      case True
      then show ?thesis using res ns Next s1 by (simp add: dfs_body_def)
    next
      case ht: False
      show ?thesis
      proof (cases "monsterLoop recurse p (monster_coords p) s")
        case (Exit r2)
        then have "monsterLoop recurse p (monster_coords p) s = Exit (Returned True s')"
          using res ns Next s1 ht by (simp add: dfs_body_def)
        from monsterLoop_true[OF r this] show ?thesis by blast
      next
        case n2: (Next s2)
        then have s2: "s2 = s" using km by simp
        show ?thesis
        proof (cases "length (handled_monster_ids s) \<noteq> length (monster_coords p)")
          case True
          then show ?thesis using res ns Next s1 ht n2 s2 by (simp add: dfs_body_def)
        next
          case hm: False
          show ?thesis
          proof (cases "deficitLoop recurse p [0..<length (cur_row_projection s)] s")
            case (Exit r3)
            then have "deficitLoop recurse p [0..<length (cur_row_projection s)] s =
                Exit (Returned True s')"
              using res ns Next s1 ht n2 s2 hm by (simp add: dfs_body_def)
            from deficitLoop_true[OF r this] show ?thesis by blast
          next
            case n3: (Next s3)
            then show ?thesis using res ns Next s1 ht n2 s2 hm by (simp add: dfs_body_def)
          qed
        qed
      qed
    qed
  qed
qed

lemma dfs_true_countersMatch:
  "countersMatch s \<Longrightarrow> dfs fuel p s = Returned True s' \<Longrightarrow>
   countersMatch s' \<and>
   isSatisfiedProjections (cur_row_projection s') (cur_column_projection s')
     (row_projection p) (column_projection p)"
proof (induction fuel arbitrary: s)
  case 0
  then show ?case by simp
next
  case (Suc fuel)
  have "dfs_body (dfs fuel p) p s = Returned True s'" using Suc.prems(2) by simp
  from dfs_body_true[OF dfs_restores this]
  consider "isSatisfiedProjections (cur_row_projection s) (cur_column_projection s)
            (row_projection p) (column_projection p)" "s' = s"
    | s1 where "wallsPlaced s s1" "dfs fuel p s1 = Returned True s'"
    | s1 h where "wallsPlaced s s1" "dfs fuel p (pushHandled h s1) = Returned True s'"
    by blast
  then show ?case
  proof cases
    case 1
    then show ?thesis using Suc.prems(1) by simp
  next
    case 2
    have "countersMatch s1" by (rule wallsPlaced_countersMatch[OF 2(1) Suc.prems(1)])
    then show ?thesis using Suc.IH 2(2) by blast
  next
    case 3
    have "countersMatch s1" by (rule wallsPlaced_countersMatch[OF 3(1) Suc.prems(1)])
    then have "countersMatch (pushHandled h s1)" by simp
    then show ?thesis using Suc.IH 3(2) by blast
  qed
qed

lemma list_all_nth_eq:
  "length xs = length ys \<Longrightarrow> list_all (\<lambda>i. xs ! i = ys ! i) [0..<length xs] \<longleftrightarrow> xs = ys"
proof
  assume l: "length xs = length ys" and a: "list_all (\<lambda>i. xs ! i = ys ! i) [0..<length xs]"
  show "xs = ys"
  proof (rule nth_equalityI[OF l])
    fix i assume "i < length xs"
    then show "xs ! i = ys ! i" using a by (simp add: list_all_iff)
  qed
next
  assume "xs = ys"
  then show "list_all (\<lambda>i. xs ! i = ys ! i) [0..<length xs]" by (simp add: list_all_iff)
qed

lemma isSatisfiedProjections_eq:
  "isSatisfiedProjections cur_rows cur_columns rows columns \<longleftrightarrow>
   cur_rows = rows \<and> cur_columns = columns"
proof (cases "length cur_rows = length rows \<and> length cur_columns = length columns")
  case True
  then show ?thesis
    using list_all_nth_eq[of cur_rows rows] list_all_nth_eq[of cur_columns columns]
    unfolding isSatisfiedProjections_def by simp
next
  case False
  then show ?thesis unfolding isSatisfiedProjections_def by auto
qed

lemma countersMatch_initialState:
  assumes "list_all (\<lambda>c. readCoord d c \<noteq> Some (Tile WALL)) interiorCoords"
  shows "countersMatch (initialState d)"
proof -
  have nw: "\<And>x y. 1 \<le> x \<Longrightarrow> x \<le> 8 \<Longrightarrow> 1 \<le> y \<Longrightarrow> y \<le> 8 \<Longrightarrow>
      readTile d x y \<noteq> Some (Tile WALL)"
  proof -
    fix x y :: int assume "1 \<le> x" "x \<le> 8" "1 \<le> y" "y \<le> 8"
    then have "Coord x y \<in> set interiorCoords" by (simp add: interiorCoords_set)
    then show "readTile d x y \<noteq> Some (Tile WALL)"
      using assms by (auto simp: list_all_iff readCoord_def)
  qed
  have r: "rowWalls d (int i + 1) = 0" if "i < 8" for i
    using that nw by (auto simp: rowWalls_def SIDE_LENGTH_def filter_empty_conv)
  have c: "columnWalls d (int i + 1) = 0" if "i < 8" for i
    using that nw by (auto simp: columnWalls_def SIDE_LENGTH_def filter_empty_conv)
  have z: "\<And>i. i < 8 \<Longrightarrow> [0, 0, 0, 0, 0, 0, 0, 0::int] ! i = 0"
  proof -
    fix i :: nat assume "i < 8"
    then have "i \<in> {0, 1, 2, 3, 4, 5, 6, 7}" by auto
    then show "[0, 0, 0, 0, 0, 0, 0, 0::int] ! i = 0" by auto
  qed
  show ?thesis
    using r c z by (simp add: countersMatch_def initialState_def RAW_SIDE_LENGTH_def list_all_iff)
qed

text \<open>
  When the counters match the walls at the start of a call (as they do at the first
  call for an input without Wall tiles, lemma \<open>countersMatch_initialState\<close>) and \<open>dfs\<close>
  returns true, every row and every column of the final board holds exactly as many
  Wall tiles as its projection asks for.
\<close>

theorem dfs_true_meets_projections:
  assumes "countersMatch s" and "dfs fuel p s = Returned True s'"
  shows "map (\<lambda>i. int (rowWalls (diagram s') (int i + 1))) [0..<RAW_SIDE_LENGTH] =
           row_projection p \<and>
         map (\<lambda>i. int (columnWalls (diagram s') (int i + 1))) [0..<RAW_SIDE_LENGTH] =
           column_projection p"
proof -
  have m: "countersMatch s'"
    and sat: "cur_row_projection s' = row_projection p"
      "cur_column_projection s' = column_projection p"
    using dfs_true_countersMatch[OF assms] by (simp_all add: isSatisfiedProjections_eq)
  have "map (\<lambda>i. int (rowWalls (diagram s') (int i + 1))) [0..<RAW_SIDE_LENGTH] =
          cur_row_projection s'"
    using m by (auto simp: countersMatch_def list_all_iff list_eq_iff_nth_eq)
  moreover have "map (\<lambda>i. int (columnWalls (diagram s') (int i + 1))) [0..<RAW_SIDE_LENGTH] =
          cur_column_projection s'"
    using m by (auto simp: countersMatch_def list_all_iff list_eq_iff_nth_eq)
  ultimately show ?thesis using sat by simp
qed

definition corridorCounted :: dfs_state where
  \<comment> \<open>the corridor board with counters that count its walls\<close>
  "corridorCounted =
     (initialState corridorBoard)
       \<lparr>cur_row_projection := [6, 7, 7, 8, 8, 8, 8, 8],
        cur_column_projection := [5, 7, 8, 8, 8, 8, 8, 8]\<rparr>"

definition corridorCountedPuzzle :: puzzle where
  "corridorCountedPuzzle =
     corridorPuzzle\<lparr>row_projection := [7, 7, 7, 8, 8, 8, 8, 8],
                     column_projection := [5, 8, 8, 8, 8, 8, 8, 8]\<rparr>"

lemma dfs_true_meets_projections_example:
  "map (\<lambda>i. int (rowWalls (diagram corridorSolved) (int i + 1))) [0..<RAW_SIDE_LENGTH] =
     [7, 7, 7, 8, 8, 8, 8, 8] \<and>
   map (\<lambda>i. int (columnWalls (diagram corridorSolved) (int i + 1))) [0..<RAW_SIDE_LENGTH] =
     [5, 8, 8, 8, 8, 8, 8, 8]"
proof -
  have m: "countersMatch corridorCounted" by code_simp
  have r: "dfs 2 corridorCountedPuzzle corridorCounted =
             Returned True
               (corridorSolved\<lparr>cur_row_projection := [7, 7, 7, 8, 8, 8, 8, 8],
                                cur_column_projection := [5, 8, 8, 8, 8, 8, 8, 8]\<rparr>)"
    by code_simp
  from dfs_true_meets_projections[OF m r] show ?thesis
    by (simp add: corridorCountedPuzzle_def)
qed

text \<open>
  Claim C1 fails on the code: the counters start at zero whatever the input holds
  (lines 959--960). On the input that is all Wall, with all projections zero, \<open>dfs\<close>
  returns true, and row 1 and column 1 of the final board hold 8 walls each against a
  target of 0. (Theorem \<open>dfs_true_meets_projections\<close> above is the claim for counters that
  do match the walls at the first call.)
\<close>

theorem dfs_true_with_initial_walls:
  "solve 1 noWalls noWalls wallRaw = Returned True (initialState wallBoard) \<and>
   row_projection \<lparr>row_projection = noWalls, column_projection = noWalls,
      treasure_coords = [], monster_coords = []\<rparr> ! 0 = 0 \<and>
   rowWalls wallBoard 1 = 8 \<and> columnWalls wallBoard 1 = 8"
  by code_simp

text \<open>
  Claim C6 fails on the code for the same reason: with one Wall tile at the corner of
  the input, the first call of \<open>dfs\<close> starts (and ends) with the counters of row 0 and
  column 0 at zero while that row and that column hold one wall.
\<close>

theorem counters_ignore_initial_walls:
  "augmentRawDiagram oneWallRaw = Some oneWallBoard \<and>
   solve 1 noWalls noWalls oneWallRaw = Returned False (initialState oneWallBoard) \<and>
   cur_row_projection (initialState oneWallBoard) ! 0 = 0 \<and> rowWalls oneWallBoard 1 = 1 \<and>
   cur_column_projection (initialState oneWallBoard) ! 0 = 0 \<and> columnWalls oneWallBoard 1 = 1"
  by code_simp

section \<open>Candidates of the deficit phase\<close>

text \<open>
  Claim C4 fails on the code: the result of \<open>checkTreasureRooms\<close> is an array and
  therefore truthy, so the first of the three pre-checks never excludes a tile. On
  \<open>treasureBoard\<close> the first call resolves the treasure and calls \<open>dfs\<close> on
  \<open>treasureHandled\<close>; there the deficit phase takes (1, 4), the only opening of the
  treasure room, as a candidate, although with a wall on it \<open>checkTreasureRooms\<close>
  answers false.
\<close>

theorem candidate_breaks_treasure_room:
  "solve 3 [1, 0, 0, 0, 0, 0, 0, 0] [0, 0, 0, 1, 0, 0, 0, 0] treasureRaw =
     dfs 3 treasurePuzzle (initialState treasureBoard) \<and>
   dfs_body (\<lambda>s. if s = treasureHandled then Raised else Returned False s)
     treasurePuzzle (initialState treasureBoard) = Raised \<and>
   collectAvailable treasurePuzzle 0 [0..<8] treasureHandled [] =
     Some (treasureHandled, [Coord 1 4]) \<and>
   putTile WALL 1 (Coord 1 4) treasureHandled =
     Some (treasureHandled\<lparr>diagram := closedRoomBoard,
             cur_row_projection := [1, 0, 0, 0, 0, 0, 0, 0],
             cur_column_projection := [0, 0, 0, 1, 0, 0, 0, 0]\<rparr>) \<and>
   checkTreasureRooms (treasure_coords treasurePuzzle) closedRoomBoard = Some (False, [])"
  by code_simp

section \<open>Treasure rooms\<close>





















































end
